theory Spec2Isabelle
  imports Complex_Main
begin

section \<open>The event ring buffer (class \<open>_EventRingBuffer\<close>)\<close>

text \<open>
  The class keeps an array \<open>_container\<close> of slot objects, two cursors \<open>_head\<close> and
  \<open>_tail\<close>, a logical \<open>_length\<close> and a public reference \<open>pushed\<close> to the slot handed
  out by the last \<open>push()\<close>. The slot objects are mutable and are written through
  \<open>pushed\<close> after the push, so the model keeps \<open>pushed\<close> as a reference: the index of
  the slot in the container (\<open>PAt\<close>), the fresh object that \<open>clear()\<close> installs and
  that is in no container (\<open>PDetached\<close>), or the \<open>undefined\<close> of a ring that has never
  been pushed to (\<open>PUndefined\<close>). The container only changes in \<open>push()\<close> and
  \<open>clear()\<close>, which both set \<open>pushed\<close> again, so an index stays the same object.
  The debugging \<open>label\<close> is left out (\<open>DEBUG\<close> is \<open>false\<close>).
\<close>

datatype error = TypeError

datatype pushedRef = PUndefined | PDetached | PAt nat

record 'a ring =
  head :: nat
  tail :: nat
  len :: nat
  container :: "'a list"
  pushed :: pushedRef

definition maxSize :: nat where
  "maxSize = 50"

definition newRing :: "'a ring" where
  "newRing = \<lparr>head = 0, tail = 0, len = 0, container = [], pushed = PUndefined\<rparr>"

definition wrapPointers :: "'a ring \<Rightarrow> 'a ring" where
  "wrapPointers r =
     (let r1 = (if head r \<ge> length (container r) then r\<lparr>head := 0\<rparr> else r)
      in if tail r1 \<ge> length (container r1) then r1\<lparr>tail := 0\<rparr> else r1)"

text \<open>\<open>pop()\<close> returns \<open>undefined\<close> (here \<open>None\<close>) on an empty ring, and the array read
  \<open>_container[_tail]\<close> is \<open>undefined\<close> when the index is past the end.\<close>

definition pop :: "'a ring \<Rightarrow> 'a option \<times> 'a ring" where
  "pop r =
     (if len r \<le> 0 then (None, r)
      else let r1 = wrapPointers r;
               retVal = (if tail r1 < length (container r1)
                         then Some (container r1 ! tail r1) else None)
           in (retVal, r1\<lparr>tail := tail r1 + 1, len := len r1 - 1\<rparr>))"

text \<open>\<open>push()\<close> takes no element: it advances the cursors and leaves \<open>pushed\<close> on the
  next slot, a recycled one or a fresh object \<open>{}\<close> spliced in at \<open>_head\<close>. The
  fresh object is the parameter \<open>blank\<close>.\<close>

definition push :: "'a \<Rightarrow> 'a ring \<Rightarrow> 'a ring" where
  "push blank r =
     (let r0 = (if len r \<ge> maxSize then snd (pop r) else r);
          r1 = wrapPointers r0
      in if head r1 = tail r1 \<and> (len r1 > 0 \<or> length (container r1) = 0)
         then r1\<lparr>container := take (head r1) (container r1) @ blank # drop (head r1) (container r1),
                 pushed := PAt (head r1),
                 len := len r1 + 1, head := head r1 + 1, tail := tail r1 + 1\<rparr>
         else r1\<lparr>pushed := PAt (head r1), head := head r1 + 1, len := len r1 + 1\<rparr>)"

definition clear :: "'a ring \<Rightarrow> 'a ring" where
  "clear r = r\<lparr>head := 0, tail := 0, len := 0, container := [], pushed := PDetached\<rparr>"

text \<open>Writing fields through \<open>pushed\<close>: a \<open>TypeError\<close> when \<open>pushed\<close> is
  \<open>undefined\<close>; a write to the detached object is seen by nobody, since that object is
  only ever reached through \<open>pushed\<close> for further writes.\<close>

definition setPushed :: "('a \<Rightarrow> 'a) \<Rightarrow> 'a ring \<Rightarrow> error + 'a ring" where
  "setPushed f r =
     (case pushed r of
        PUndefined \<Rightarrow> Inl TypeError
      | PDetached \<Rightarrow> Inr r
      | PAt i \<Rightarrow> Inr (r\<lparr>container := (container r)[i := f (container r ! i)]\<rparr>))"

text \<open>Reading through \<open>pushed\<close>: \<open>None\<close> stands for the detached object, whose fields
  are all \<open>undefined\<close>.\<close>

definition getPushed :: "'a ring \<Rightarrow> error + 'a option" where
  "getPushed r =
     (case pushed r of
        PUndefined \<Rightarrow> Inl TypeError
      | PDetached \<Rightarrow> Inr None
      | PAt i \<Rightarrow> Inr (if i < length (container r) then Some (container r ! i) else None))"

definition bind_err :: "error + 'a \<Rightarrow> ('a \<Rightarrow> error + 'b) \<Rightarrow> error + 'b" where
  "bind_err m f = (case m of Inl e \<Rightarrow> Inl e | Inr v \<Rightarrow> f v)"

section \<open>Events and the input controller (class \<open>BaseCameraPointersInput\<close>)\<close>

text \<open>
  JavaScript numbers are modelled as exact rationals (no rounding, no \<open>NaN\<close>, no
  infinities). Field names follow the source; a leading underscore of the source is
  written \<open>u_\<close>, the two closure variables of \<open>attachControl\<close> are prefixed \<open>c_\<close>, and
  the fields of \<open>PointerTouch\<close> are prefixed \<open>pt_\<close>.
\<close>

datatype pointerEventTypes =
  POINTERDOWN | POINTERUP | POINTERMOVE | POINTERWHEEL | POINTERPICK | POINTERTAP | POINTERDOUBLETAP

text \<open>The \<open>type\<close> of a \<open>PointerTouch\<close> is the event's \<open>pointerType\<close> string for a tracked
  contact and the numeric \<open>PointerEventTypes\<close> value for a pan position.\<close>

datatype touchType = PointerTypeName string | EventTypeCode pointerEventTypes

record pointerTouch =
  pt_x :: rat
  pt_y :: rat
  pt_pointerId :: int
  pt_type :: touchType

text \<open>The DOM \<open>PointerEvent\<close>: \<open>srcElement\<close> records whether \<open>evt.srcElement || evt.target\<close>
  is present; of the vendor-prefixed movement fields only the standard ones are kept.\<close>

record pointerEvent =
  pointerType :: string
  button :: int
  evt_buttons :: int
  pointerId :: int
  clientX :: rat
  clientY :: rat
  movementX :: rat
  movementY :: rat
  altKey :: bool
  ctrlKey :: bool
  metaKey :: bool
  shiftKey :: bool
  srcElement :: bool

record pointerInfo =
  pi_type :: pointerEventTypes
  pi_event :: pointerEvent

text \<open>The tracked contacts \<open>_pointA\<close> and \<open>_pointB\<close> are objects that the move handler
  mutates in place while queued events still refer to them, so they live in a store
  and are passed around as addresses.\<close>

type_synonym ref = nat

datatype bufferRef =
  EventsButtonDown | EventsButtonUp | EventsDoubleTap | EventsTouch | EventsMultiTouch

text \<open>\<open>IEvent\<close>: a reference to one of the five per-kind rings; \<open>None\<close> is the
  \<open>undefined\<close> of a fresh object.\<close>

record iEvent =
  buffer :: "bufferRef option"

text \<open>\<open>ICameraInputButtonDownEvent\<close> and \<open>ICameraInputButtonUpEvent\<close> have the same shape.\<close>

record buttonEvent =
  event :: "pointerEvent option"

record doubleTapEvent =
  dt_type :: "string option"

record touchEvent =
  point :: "ref option"
  offsetX :: rat
  offsetY :: rat

record multiTouchEvent =
  pointA :: "ref option"
  pointB :: "ref option"
  previousPinchSquaredDistance :: rat
  pinchSquaredDistance :: rat
  previousMultiTouchPanPosition :: "pointerTouch option"
  multiTouchPanPosition :: "pointerTouch option"

text \<open>The fresh objects \<open>{}\<close> that \<open>push()\<close> splices in. Their fields are \<open>undefined\<close>
  in the source; the numeric ones are given 0 here. Every capture writes all fields of
  a slot right after pushing it.\<close>

definition blankIEvent :: iEvent where
  "blankIEvent = \<lparr>buffer = None\<rparr>"

definition blankButtonEvent :: buttonEvent where
  "blankButtonEvent = \<lparr>event = None\<rparr>"

definition blankDoubleTapEvent :: doubleTapEvent where
  "blankDoubleTapEvent = \<lparr>dt_type = None\<rparr>"

definition blankTouchEvent :: touchEvent where
  "blankTouchEvent = \<lparr>point = None, offsetX = 0, offsetY = 0\<rparr>"

definition blankMultiTouchEvent :: multiTouchEvent where
  "blankMultiTouchEvent =
     \<lparr>pointA = None, pointB = None, previousPinchSquaredDistance = 0, pinchSquaredDistance = 0,
      previousMultiTouchPanPosition = None, multiTouchPanPosition = None\<rparr>"

text \<open>The overridable handlers and the observables do nothing in the base class; the
  model records each call and each notification, with its arguments, in a trace.\<close>

datatype call =
    OnButtonDown "pointerEvent option" | NotifyButtonDown buttonEvent
  | OnButtonUp "pointerEvent option" | NotifyButtonUp buttonEvent
  | OnDoubleTap "string option" | NotifyDoubleTap doubleTapEvent
  | OnTouch "ref option" rat rat | NotifyTouch touchEvent
  | OnMultiTouch "ref option" "ref option" rat rat "pointerTouch option" "pointerTouch option"
  | NotifyMultiTouch multiTouchEvent
  | OnLostFocus

record input =
  u_allEvents :: "iEvent ring"
  u_eventsButtonDown :: "buttonEvent ring"
  u_eventsButtonUp :: "buttonEvent ring"
  u_eventsDoubleTap :: "doubleTapEvent ring"
  u_eventsTouch :: "touchEvent ring"
  u_eventsMultiTouch :: "multiTouchEvent ring"
  u_defferCallback :: bool
  u_pointA :: "ref option"
  u_pointB :: "ref option"
  u_previousPinchSquaredDistance :: rat
  u_previousMultiTouchPanPosition :: "pointerTouch option"
  c_previousPinchSquaredDistance :: rat
  c_previousMultiTouchPanPosition :: "pointerTouch option"
  u_altKey :: bool
  u_ctrlKey :: bool
  u_metaKey :: bool
  u_shiftKey :: bool
  u_buttonsPressed :: int
  buttons :: "int list"
  store :: "ref \<Rightarrow> pointerTouch"
  nextRef :: ref
  calls :: "call list"

definition COALESCE :: bool where
  "COALESCE = True"

definition DEFFER_CALLBACK :: bool where
  "DEFFER_CALLBACK = True"

text \<open>The controller as constructed and attached: empty rings, no contact tracked.\<close>

definition attached :: input where
  "attached =
     \<lparr>u_allEvents = newRing, u_eventsButtonDown = newRing, u_eventsButtonUp = newRing,
      u_eventsDoubleTap = newRing, u_eventsTouch = newRing, u_eventsMultiTouch = newRing,
      u_defferCallback = DEFFER_CALLBACK,
      u_pointA = None, u_pointB = None,
      u_previousPinchSquaredDistance = 0, u_previousMultiTouchPanPosition = None,
      c_previousPinchSquaredDistance = 0, c_previousMultiTouchPanPosition = None,
      u_altKey = False, u_ctrlKey = False, u_metaKey = False, u_shiftKey = False,
      u_buttonsPressed = 0, buttons = [0, 1, 2],
      store = (\<lambda>_. \<lparr>pt_x = 0, pt_y = 0, pt_pointerId = 0, pt_type = PointerTypeName []\<rparr>),
      nextRef = 0, calls = []\<rparr>"

subsection \<open>Capture: the five \<open>_addEvents...\<close> methods\<close>

text \<open>\<open>_allEvents.push(); _allEvents.pushed.buffer = b\<close>.\<close>

definition pushAllEvents :: "bufferRef \<Rightarrow> input \<Rightarrow> error + input" where
  "pushAllEvents b s =
     bind_err (setPushed (\<lambda>e. e\<lparr>buffer := Some b\<rparr>) (push blankIEvent (u_allEvents s)))
       (\<lambda>q. Inr (s\<lparr>u_allEvents := q\<rparr>))"

text \<open>The coalescing test
  \<open>COALESCE && _allEvents.length > 0 && _allEvents.pushed.buffer === b\<close>.\<close>

definition lastPushedIs :: "bufferRef \<Rightarrow> input \<Rightarrow> error + bool" where
  "lastPushedIs b s =
     (if COALESCE \<and> len (u_allEvents s) > 0
      then bind_err (getPushed (u_allEvents s))
             (\<lambda>e. Inr ((case e of None \<Rightarrow> None | Some ie \<Rightarrow> buffer ie) = Some b))
      else Inr False)"

definition addEventsButtonDown :: "pointerEvent \<Rightarrow> input \<Rightarrow> error + input" where
  "addEventsButtonDown ev s =
     (if \<not> u_defferCallback s then Inr (s\<lparr>calls := calls s @ [OnButtonDown (Some ev)]\<rparr>)
      else bind_err (setPushed (\<lambda>e. e\<lparr>event := Some ev\<rparr>) (push blankButtonEvent (u_eventsButtonDown s)))
             (\<lambda>r. pushAllEvents EventsButtonDown (s\<lparr>u_eventsButtonDown := r\<rparr>)))"

definition addEventsButtonUp :: "pointerEvent \<Rightarrow> input \<Rightarrow> error + input" where
  "addEventsButtonUp ev s =
     (if \<not> u_defferCallback s then Inr (s\<lparr>calls := calls s @ [OnButtonUp (Some ev)]\<rparr>)
      else bind_err (setPushed (\<lambda>e. e\<lparr>event := Some ev\<rparr>) (push blankButtonEvent (u_eventsButtonUp s)))
             (\<lambda>r. pushAllEvents EventsButtonUp (s\<lparr>u_eventsButtonUp := r\<rparr>)))"

definition addEventsDoubleTap :: "string \<Rightarrow> input \<Rightarrow> error + input" where
  "addEventsDoubleTap eventType s =
     (if \<not> u_defferCallback s then Inr (s\<lparr>calls := calls s @ [OnDoubleTap (Some eventType)]\<rparr>)
      else bind_err (setPushed (\<lambda>e. e\<lparr>dt_type := Some eventType\<rparr>)
                       (push blankDoubleTapEvent (u_eventsDoubleTap s)))
             (\<lambda>r. pushAllEvents EventsDoubleTap (s\<lparr>u_eventsDoubleTap := r\<rparr>)))"

definition addEventsTouch :: "ref option \<Rightarrow> rat \<Rightarrow> rat \<Rightarrow> input \<Rightarrow> error + input" where
  "addEventsTouch p ox oy s =
     (if \<not> u_defferCallback s then Inr (s\<lparr>calls := calls s @ [OnTouch p ox oy]\<rparr>)
      else bind_err (lastPushedIs EventsTouch s) (\<lambda>same.
        if same
        then bind_err (setPushed (\<lambda>e. e\<lparr>point := p, offsetX := offsetX e + ox,
                                          offsetY := offsetY e + oy\<rparr>) (u_eventsTouch s))
               (\<lambda>r. Inr (s\<lparr>u_eventsTouch := r\<rparr>))
        else bind_err (setPushed (\<lambda>e. e\<lparr>point := p, offsetX := ox, offsetY := oy\<rparr>)
                         (push blankTouchEvent (u_eventsTouch s)))
               (\<lambda>r. pushAllEvents EventsTouch (s\<lparr>u_eventsTouch := r\<rparr>))))"

text \<open>With deferral on, the two \<open>previous...\<close> parameters are not used: a new slot takes
  its previous values from the fields \<open>_previousPinchSquaredDistance\<close> and
  \<open>_previousMultiTouchPanPosition\<close>, which the drain sets.\<close>

definition addEventsMultiTouch ::
  "ref option \<Rightarrow> ref option \<Rightarrow> rat \<Rightarrow> rat \<Rightarrow> pointerTouch option \<Rightarrow> pointerTouch option
     \<Rightarrow> input \<Rightarrow> error + input" where
  "addEventsMultiTouch pA pB prevPinch pinch prevPan pan s =
     (if \<not> u_defferCallback s
      then Inr (s\<lparr>calls := calls s @ [OnMultiTouch pA pB prevPinch pinch prevPan pan]\<rparr>)
      else bind_err (lastPushedIs EventsMultiTouch s) (\<lambda>same.
        if same
        then bind_err (setPushed (\<lambda>e. e\<lparr>pointA := pA, pointB := pB,
                                          pinchSquaredDistance := pinchSquaredDistance e + pinch,
                                          multiTouchPanPosition := pan\<rparr>) (u_eventsMultiTouch s))
               (\<lambda>r. Inr (s\<lparr>u_eventsMultiTouch := r\<rparr>))
        else bind_err (setPushed (\<lambda>e. e\<lparr>pointA := pA, pointB := pB,
                                          previousPinchSquaredDistance := u_previousPinchSquaredDistance s,
                                          pinchSquaredDistance := pinch,
                                          previousMultiTouchPanPosition := u_previousMultiTouchPanPosition s,
                                          multiTouchPanPosition := pan\<rparr>)
                         (push blankMultiTouchEvent (u_eventsMultiTouch s)))
               (\<lambda>r. pushAllEvents EventsMultiTouch (s\<lparr>u_eventsMultiTouch := r\<rparr>))))"

subsection \<open>Drain: \<open>checkInputs\<close>\<close>

text \<open>One turn of the loop body after the order entry has been popped and found to
  carry the ring \<open>b\<close>: pop that ring; an \<open>undefined\<close> event is skipped (\<open>continue\<close>).\<close>

definition dispatch :: "bufferRef \<Rightarrow> input \<Rightarrow> input" where
  "dispatch b s =
     (case b of
        EventsButtonDown \<Rightarrow>
          (let (ev, r) = pop (u_eventsButtonDown s); s1 = s\<lparr>u_eventsButtonDown := r\<rparr>
           in case ev of None \<Rightarrow> s1
              | Some te \<Rightarrow> s1\<lparr>calls := calls s1 @ [OnButtonDown (event te), NotifyButtonDown te]\<rparr>)
      | EventsButtonUp \<Rightarrow>
          (let (ev, r) = pop (u_eventsButtonUp s); s1 = s\<lparr>u_eventsButtonUp := r\<rparr>
           in case ev of None \<Rightarrow> s1
              | Some te \<Rightarrow> s1\<lparr>calls := calls s1 @ [OnButtonUp (event te), NotifyButtonUp te]\<rparr>)
      | EventsDoubleTap \<Rightarrow>
          (let (ev, r) = pop (u_eventsDoubleTap s); s1 = s\<lparr>u_eventsDoubleTap := r\<rparr>
           in case ev of None \<Rightarrow> s1
              | Some te \<Rightarrow> s1\<lparr>calls := calls s1 @ [OnDoubleTap (dt_type te), NotifyDoubleTap te]\<rparr>)
      | EventsTouch \<Rightarrow>
          (let (ev, r) = pop (u_eventsTouch s); s1 = s\<lparr>u_eventsTouch := r\<rparr>
           in case ev of None \<Rightarrow> s1
              | Some te \<Rightarrow>
                  s1\<lparr>calls := calls s1 @ [OnTouch (point te) (offsetX te) (offsetY te), NotifyTouch te]\<rparr>)
      | EventsMultiTouch \<Rightarrow>
          (let (ev, r) = pop (u_eventsMultiTouch s); s1 = s\<lparr>u_eventsMultiTouch := r\<rparr>
           in case ev of None \<Rightarrow> s1
              | Some te \<Rightarrow>
                  s1\<lparr>u_previousPinchSquaredDistance := pinchSquaredDistance te,
                     u_previousMultiTouchPanPosition := multiTouchPanPosition te,
                     calls := calls s1 @
                       [OnMultiTouch (pointA te) (pointB te) (previousPinchSquaredDistance te)
                          (pinchSquaredDistance te) (previousMultiTouchPanPosition te)
                          (multiTouchPanPosition te),
                        NotifyMultiTouch te]\<rparr>))"

lemma len_allEvents_dispatch [simp]: "len (u_allEvents (dispatch b s)) = len (u_allEvents s)"
  by (cases b) (simp_all add: dispatch_def Let_def split: prod.splits option.splits)

lemma len_pop_less: "0 < len r \<Longrightarrow> len (snd (pop r)) < len r"
  by (simp add: pop_def wrapPointers_def Let_def)

text \<open>The loop. An order entry that is \<open>undefined\<close> is skipped; one whose \<open>buffer\<close> is
  \<open>undefined\<close> makes \<open>eventBuffer.buffer.pop()\<close> throw.\<close>

function checkInputs :: "input \<Rightarrow> error + input" where
  "checkInputs s =
     (if len (u_allEvents s) > 0
      then (case fst (pop (u_allEvents s)) of
              None \<Rightarrow> checkInputs (s\<lparr>u_allEvents := snd (pop (u_allEvents s))\<rparr>)
            | Some eventBuffer \<Rightarrow>
                (case buffer eventBuffer of
                   None \<Rightarrow> Inl TypeError
                 | Some b \<Rightarrow> checkInputs (dispatch b (s\<lparr>u_allEvents := snd (pop (u_allEvents s))\<rparr>))))
      else Inr s)"
  by pat_completeness auto
termination
  by (relation "measure (\<lambda>s. len (u_allEvents s))") (auto simp: len_pop_less)

declare checkInputs.simps [simp del]

subsection \<open>The pointer observer \<open>_pointerInput\<close> and \<open>_onLostFocus\<close>\<close>

text \<open>The engine flags the observer reads. The DOM effects (\<open>setPointerCapture\<close>,
  \<open>releasePointerCapture\<close>, \<open>preventDefault\<close>, \<open>focus\<close>) touch nothing of the
  controller and are left out.\<close>

record engine =
  isInVRExclusivePointerMode :: bool
  isPointerLock :: bool
  badOS :: bool

text \<open>\<open>x |= 0\<close>: truncate towards zero and wrap to a signed 32-bit integer.\<close>

definition toInt32 :: "rat \<Rightarrow> rat" where
  "toInt32 q =
     (let t = (if q < 0 then - \<lfloor>- q\<rfloor> else \<lfloor>q\<rfloor>);
          m = t mod 2 ^ 32
      in of_int (if m \<ge> 2 ^ 31 then m - 2 ^ 32 else m))"

definition newPoint :: "pointerEvent \<Rightarrow> pointerTouch" where
  "newPoint evt =
     \<lparr>pt_x = clientX evt, pt_y = clientY evt, pt_pointerId = pointerId evt,
      pt_type = PointerTypeName (pointerType evt)\<rparr>"

text \<open>The bookkeeping of the \<open>POINTERUP\<close> branch: a mouse or pen drops \<open>_pointB\<close>;
  then either every contact is dropped (\<open>_badOS\<close>, or the lifted pointer is not one of
  two tracked ones) or only the lifted one.\<close>

definition liftPoint :: "engine \<Rightarrow> pointerEvent \<Rightarrow> input \<Rightarrow> input" where
  "liftPoint eng evt s0 =
     (let s1 = (if \<not> (pointerType evt = ''touch'') then s0\<lparr>u_pointB := None\<rparr> else s0)
      in if badOS eng then s1\<lparr>u_pointA := None, u_pointB := None\<rparr>
         else case (u_pointA s1, u_pointB s1) of
           (Some a, Some b) \<Rightarrow>
             if pt_pointerId (store s1 a) = pointerId evt
             then s1\<lparr>u_pointA := Some b, u_pointB := None\<rparr>
             else if pt_pointerId (store s1 b) = pointerId evt
             then s1\<lparr>u_pointB := None\<rparr>
             else s1\<lparr>u_pointA := None, u_pointB := None\<rparr>
         | _ \<Rightarrow> s1\<lparr>u_pointA := None, u_pointB := None\<rparr>)"

definition pointerInput :: "engine \<Rightarrow> pointerInfo \<Rightarrow> input \<Rightarrow> error + input" where
  "pointerInput eng p s =
     (let evt = pi_event p in
      if isInVRExclusivePointerMode eng then Inr s
      else if pi_type p \<noteq> POINTERMOVE \<and> button evt \<notin> set (buttons s) then Inr s
      else
        let s0 = s\<lparr>u_altKey := altKey evt, u_ctrlKey := ctrlKey evt, u_metaKey := metaKey evt,
                   u_shiftKey := shiftKey evt, u_buttonsPressed := evt_buttons evt\<rparr> in
        if isPointerLock eng then
          bind_err (addEventsTouch None (movementX evt) (movementY evt) s0)
            (\<lambda>s1. Inr (s1\<lparr>u_pointA := None, u_pointB := None\<rparr>))
        else if pi_type p = POINTERDOWN \<and> srcElement evt then
          (let s1 = (if u_pointA s0 = None
                     then s0\<lparr>u_pointA := Some (nextRef s0),
                             store := (store s0)(nextRef s0 := newPoint evt),
                             nextRef := nextRef s0 + 1\<rparr>
                     else if u_pointB s0 = None
                     then s0\<lparr>u_pointB := Some (nextRef s0),
                             store := (store s0)(nextRef s0 := newPoint evt),
                             nextRef := nextRef s0 + 1\<rparr>
                     else s0)
           in addEventsButtonDown evt s1)
        else if pi_type p = POINTERDOUBLETAP then addEventsDoubleTap (pointerType evt) s0
        else if pi_type p = POINTERUP \<and> srcElement evt then
          (let s2 = liftPoint eng evt s0
           in bind_err
                (if c_previousPinchSquaredDistance s2 \<noteq> 0 \<or> c_previousMultiTouchPanPosition s2 \<noteq> None
                 then bind_err (addEventsMultiTouch (u_pointA s2) (u_pointB s2)
                                  (c_previousPinchSquaredDistance s2) 0
                                  (c_previousMultiTouchPanPosition s2) None s2)
                        (\<lambda>s3. Inr (s3\<lparr>c_previousPinchSquaredDistance := 0,
                                       c_previousMultiTouchPanPosition := None\<rparr>))
                 else Inr s2)
                (\<lambda>s4. addEventsButtonUp evt s4))
        else if pi_type p = POINTERMOVE then
          (case (u_pointA s0, u_pointB s0) of
             (Some a, None) \<Rightarrow>
               bind_err (addEventsTouch (Some a) (clientX evt - pt_x (store s0 a))
                           (clientY evt - pt_y (store s0 a)) s0)
                 (\<lambda>s1. Inr (s1\<lparr>store := (store s1)
                                  (a := (store s1 a)\<lparr>pt_x := clientX evt, pt_y := clientY evt\<rparr>)\<rparr>))
           | (Some a, Some b) \<Rightarrow>
               (let ed = (if pt_pointerId (store s0 a) = pointerId evt then a else b);
                    st = (store s0)(ed := (store s0 ed)\<lparr>pt_x := clientX evt, pt_y := clientY evt\<rparr>);
                    distX = pt_x (st a) - pt_x (st b);
                    distY = pt_y (st a) - pt_y (st b);
                    pinch = toInt32 (distX * distX + distY * distY);
                    pan = \<lparr>pt_x = (pt_x (st a) + pt_x (st b)) / 2,
                           pt_y = (pt_y (st a) + pt_y (st b)) / 2,
                           pt_pointerId = pointerId evt,
                           pt_type = EventTypeCode (pi_type p)\<rparr>
                in bind_err (addEventsMultiTouch (Some a) (Some b)
                               (c_previousPinchSquaredDistance s0) pinch
                               (c_previousMultiTouchPanPosition s0) (Some pan) (s0\<lparr>store := st\<rparr>))
                     (\<lambda>s1. Inr (s1\<lparr>c_previousMultiTouchPanPosition := Some pan,
                                    c_previousPinchSquaredDistance := pinch\<rparr>)))
           | _ \<Rightarrow> Inr s0)
        else Inr s0)"

definition onLostFocus :: "input \<Rightarrow> input" where
  "onLostFocus s =
     s\<lparr>u_pointA := None, u_pointB := None,
       c_previousPinchSquaredDistance := 0, c_previousMultiTouchPanPosition := None,
       calls := calls s @ [OnLostFocus]\<rparr>"

section \<open>The ring buffer is a bounded queue\<close>

text \<open>
  The elements a ring holds, oldest first: \<open>len\<close> slots of the container starting at
  the (wrapped) tail and running round the end of the array. \<open>ring_inv\<close> is what the
  operations keep true of the cursors: both are within the array, the wrapped head is
  \<open>len\<close> slots after the wrapped tail, and \<open>pushed\<close> is the newest slot while the
  ring is not empty.
\<close>

definition wp :: "nat \<Rightarrow> nat \<Rightarrow> nat" where
  "wp n h = (if h \<ge> n then 0 else h)"

definition widx :: "nat \<Rightarrow> nat \<Rightarrow> nat \<Rightarrow> nat" where
  "widx n t j = (if t + j < n then t + j else t + j - n)"

definition contents :: "'a ring \<Rightarrow> 'a list" where
  "contents r =
     (let n = length (container r); t = wp n (tail r)
      in map (\<lambda>j. container r ! widx n t j) [0..<len r])"

definition ring_inv :: "'a ring \<Rightarrow> bool" where
  "ring_inv r =
     (let n = length (container r) in
      head r \<le> n \<and> tail r \<le> n \<and> len r \<le> n \<and> n \<le> maxSize \<and>
      wp n (head r) = widx n (wp n (tail r)) (len r) \<and>
      (0 < len r \<longrightarrow> pushed r = PAt (widx n (wp n (tail r)) (len r - 1))))"

lemma wp_less: "0 < n \<Longrightarrow> wp n h < n"
  by (simp add: wp_def)

lemma wp_id [simp]: "h < n \<Longrightarrow> wp n h = h"
  by (simp add: wp_def)

lemma wp_idem [simp]: "wp n (wp n h) = wp n h"
  by (simp add: wp_def)

lemma widx_0 [simp]: "t < n \<Longrightarrow> widx n t 0 = t"
  by (simp add: widx_def)

lemma widx_less: "t < n \<Longrightarrow> j \<le> n \<Longrightarrow> widx n t j < n"
  by (auto simp: widx_def)

lemma widx_step: "t < n \<Longrightarrow> j < n \<Longrightarrow> widx n (wp n (Suc t)) j = widx n t (Suc j)"
  by (auto simp: widx_def wp_def)

lemma widx_step': "t < n \<Longrightarrow> 0 < j \<Longrightarrow> j \<le> n \<Longrightarrow> widx n (wp n (Suc t)) (j - 1) = widx n t j"
  by (auto simp: widx_def wp_def)

lemma widx_inj: "t < n \<Longrightarrow> i < n \<Longrightarrow> j < n \<Longrightarrow> widx n t i = widx n t j \<Longrightarrow> i = j"
  by (auto simp: widx_def split: if_splits)

lemma widx_full: "t < n \<Longrightarrow> widx n t n = t"
  by (simp add: widx_def)

lemma length_contents [simp]: "length (contents r) = len r"
  by (simp add: contents_def Let_def)

lemma contents_nth:
  "i < len r \<Longrightarrow> contents r ! i = container r ! widx (length (container r)) (wp (length (container r)) (tail r)) i"
  by (simp add: contents_def Let_def)

lemma ring_inv_newRing: "ring_inv newRing"
  by (simp add: ring_inv_def newRing_def wp_def widx_def maxSize_def)


lemma wrapPointers_fields [simp]:
  "head (wrapPointers r) = wp (length (container r)) (head r)"
  "tail (wrapPointers r) = wp (length (container r)) (tail r)"
  "len (wrapPointers r) = len r"
  "container (wrapPointers r) = container r"
  "pushed (wrapPointers r) = pushed r"
  by (simp_all add: wrapPointers_def wp_def Let_def)

lemma pop_fields:
  "0 < len r \<Longrightarrow> head (snd (pop r)) = wp (length (container r)) (head r)"
  "0 < len r \<Longrightarrow> tail (snd (pop r)) = Suc (wp (length (container r)) (tail r))"
  "len (snd (pop r)) = len r - 1"
  "container (snd (pop r)) = container r"
  "pushed (snd (pop r)) = pushed r"
  by (simp_all add: pop_def Let_def)

lemma pop_empty: "len r = 0 \<Longrightarrow> pop r = (None, r)"
  by (simp add: pop_def)

lemma ring_inv_pos: "ring_inv r \<Longrightarrow> 0 < len r \<Longrightarrow> 0 < length (container r)"
  by (auto simp: ring_inv_def Let_def)

lemma pop_fst:
  assumes "ring_inv r" "0 < len r"
  shows "fst (pop r) = Some (hd (contents r))"
proof -
  let ?n = "length (container r)"
  have n: "0 < ?n" using assms by (rule ring_inv_pos)
  have ne: "contents r \<noteq> []" using assms(2) by (metis length_contents length_greater_0_conv)
  have "hd (contents r) = contents r ! 0" using ne by (simp add: hd_conv_nth)
  also have "\<dots> = container r ! wp ?n (tail r)"
    using assms(2) n by (simp add: contents_nth wp_less)
  finally show ?thesis
    using assms n by (simp add: pop_def Let_def wp_less)
qed

lemma pop_contents:
  assumes "ring_inv r"
  shows "contents (snd (pop r)) = tl (contents r)"
proof (cases "0 < len r")
  case False
  then show ?thesis by (simp add: pop_def contents_def)
next
  case True
  let ?n = "length (container r)"
  have n: "0 < ?n" using assms True by (rule ring_inv_pos)
  have le: "len r \<le> ?n" using assms by (simp add: ring_inv_def Let_def)
  show ?thesis
  proof (rule nth_equalityI)
    show "length (contents (snd (pop r))) = length (tl (contents r))"
      by (simp add: pop_fields)
  next
    fix i assume "i < length (contents (snd (pop r)))"
    then have i: "i < len r - 1" by (simp add: pop_fields)
    then have "i < ?n" "Suc i < len r" using le by auto
    then show "contents (snd (pop r)) ! i = tl (contents r) ! i"
      using True n i
      by (simp add: nth_tl contents_nth pop_fields widx_step wp_less)
  qed
qed

lemma pop_inv:
  assumes "ring_inv r"
  shows "ring_inv (snd (pop r))"
proof (cases "0 < len r")
  case False
  then show ?thesis using assms by (simp add: pop_def)
next
  case True
  let ?n = "length (container r)"
  have n: "0 < ?n" using assms True by (rule ring_inv_pos)
  have t: "wp ?n (tail r) < ?n" using n by (rule wp_less)
  have le: "len r \<le> ?n" "?n \<le> maxSize" using assms by (simp_all add: ring_inv_def Let_def)
  have h: "wp ?n (head r) = widx ?n (wp ?n (tail r)) (len r)"
    using assms by (simp add: ring_inv_def Let_def)
  have p: "pushed r = PAt (widx ?n (wp ?n (tail r)) (len r - 1))"
    using assms True by (simp add: ring_inv_def Let_def)
  have s1: "widx ?n (wp ?n (Suc (wp ?n (tail r)))) (len r - 1) = widx ?n (wp ?n (tail r)) (len r)"
    using widx_step'[OF t, of "len r"] True le by simp
  have s2: "1 < len r \<Longrightarrow> widx ?n (wp ?n (Suc (wp ?n (tail r)))) (len r - 1 - 1) = widx ?n (wp ?n (tail r)) (len r - 1)"
    using widx_step'[OF t, of "len r - 1"] True le by simp
  show ?thesis
    unfolding ring_inv_def Let_def
    using True le h p s1 s2 t wp_less[OF n, of "head r"]
    by (auto simp add: pop_fields)
qed


lemma widx_Suc: "t < n \<Longrightarrow> j < n \<Longrightarrow> widx n t (Suc j) = wp n (Suc (widx n t j))"
  by (auto simp: widx_def wp_def)

lemma widx_same_iff: "t < n \<Longrightarrow> j \<le> n \<Longrightarrow> widx n t j = t \<longleftrightarrow> j = 0 \<or> j = n"
  by (auto simp: widx_def)

lemma ring_inv_fields:
  assumes "ring_inv r"
  shows "head r \<le> length (container r)" "tail r \<le> length (container r)"
    "len r \<le> length (container r)" "length (container r) \<le> maxSize"
    "wp (length (container r)) (head r) = widx (length (container r)) (wp (length (container r)) (tail r)) (len r)"
    "0 < len r \<Longrightarrow> pushed r = PAt (widx (length (container r)) (wp (length (container r)) (tail r)) (len r - 1))"
  using assms by (simp_all add: ring_inv_def Let_def)

lemma push_overflow:
  assumes "ring_inv r" "len r \<ge> maxSize"
  shows "push b r = push b (snd (pop r))"
proof -
  have "len r \<le> maxSize" using ring_inv_fields(3,4)[OF assms(1)] by simp
  then have "len (snd (pop r)) < maxSize" using assms(2) by (simp add: pop_fields maxSize_def)
  then show ?thesis using assms(2) by (simp add: push_def)
qed

text \<open>A push that grows the container.\<close>

lemma nth_insert:
  "h \<le> length c \<Longrightarrow> (take h c @ b # drop h c) ! k = (if k < h then c ! k else if k = h then b else c ! (k - 1))"
  by (auto simp: nth_append nth_Cons' min_def)

lemma push_grow_fields:
  assumes "len r < maxSize"
    and "wp (length (container r)) (head r) = wp (length (container r)) (tail r)"
    and "0 < len r \<or> length (container r) = 0"
  shows "container (push b r) = take (wp (length (container r)) (head r)) (container r) @ b # drop (wp (length (container r)) (head r)) (container r)"
    "pushed (push b r) = PAt (wp (length (container r)) (head r))"
    "len (push b r) = Suc (len r)"
    "head (push b r) = Suc (wp (length (container r)) (head r))"
    "tail (push b r) = Suc (wp (length (container r)) (tail r))"
  using assms by (simp_all add: push_def Let_def)

lemma push_reuse_fields:
  assumes "len r < maxSize"
    and "\<not> (wp (length (container r)) (head r) = wp (length (container r)) (tail r) \<and> (0 < len r \<or> length (container r) = 0))"
  shows "container (push b r) = container r"
    "pushed (push b r) = PAt (wp (length (container r)) (head r))"
    "len (push b r) = Suc (len r)"
    "head (push b r) = Suc (wp (length (container r)) (head r))"
    "tail (push b r) = wp (length (container r)) (tail r)"
  using assms by (auto simp add: push_def Let_def)

lemma push_small:
  assumes inv: "ring_inv r" and small: "len r < maxSize"
  shows "ring_inv (push b r) \<and> len (push b r) = Suc (len r) \<and> butlast (contents (push b r)) = contents r"
proof -
  let ?c = "container r"
  let ?n = "length ?c"
  let ?t = "wp ?n (tail r)"
  let ?h = "wp ?n (head r)"
  note f = ring_inv_fields[OF inv]
  show ?thesis
  proof (cases "?h = ?t \<and> (0 < len r \<or> ?n = 0)")
    case True
    note g = push_grow_fields[OF small, of b] 
    have ht: "?h = ?t" using True by simp
    have full: "len r = ?n"
    proof (cases "?n = 0")
      case True then show ?thesis using f(3) by simp
    next
      case False
      then have "?t < ?n" by (simp add: wp_less)
      then show ?thesis using f(5) ht True False f(3) widx_same_iff[of ?t ?n "len r"] by auto
    qed
    have hle: "?h \<le> ?n" by (simp add: wp_def)
    have n': "length (container (push b r)) = Suc ?n"
      using True hle by (simp add: g)
    have hlt: "?n \<noteq> 0 \<Longrightarrow> ?h < ?n" by (simp add: wp_less)
    have I: "ring_inv (push b r)"
      unfolding ring_inv_def Let_def n'
      using True full small hle hlt ht
      by (auto simp: g wp_def widx_def)
    have L: "len (push b r) = Suc (len r)" using True by (simp add: g)
    have C: "butlast (contents (push b r)) = contents r"
    proof (rule nth_equalityI)
      show "length (butlast (contents (push b r))) = length (contents r)" by (simp add: L)
    next
      fix i assume "i < length (butlast (contents (push b r)))"
      then have i: "i < len r" by (simp add: L)
      then have n0: "0 < ?n" using full by linarith
      have hn: "?h < ?n" using n0 by (simp add: wp_less)
      have "butlast (contents (push b r)) ! i = contents (push b r) ! i"
        using i by (simp add: nth_butlast L)
      also have "\<dots> = container (push b r) ! widx (Suc ?n) (wp (Suc ?n) (tail (push b r))) i"
        using i by (simp add: contents_nth L n')
      also have "\<dots> = ?c ! widx ?n ?t i"
        using True i full hn hle ht
        by (simp add: g nth_insert) (auto simp: widx_def wp_def)
      finally show "butlast (contents (push b r)) ! i = contents r ! i"
        using i by (simp add: contents_nth)
    qed
    show ?thesis using I L C by simp
  next
    case False
    note g = push_reuse_fields[OF small False, of b]
    have n0: "0 < ?n" using False by (auto simp: wp_def)
    have tn: "?t < ?n" and hn: "?h < ?n" using n0 by (simp_all add: wp_less)
    have nfull: "len r < ?n"
    proof (rule ccontr)
      assume "\<not> len r < ?n"
      then have "len r = ?n" using f(3) by simp
      then show False using False f(5) tn n0 by (simp add: widx_full)
    qed
    have I: "ring_inv (push b r)"
      unfolding ring_inv_def Let_def
      using f nfull tn hn widx_Suc[OF tn nfull]
      by (simp add: g)
    have L: "len (push b r) = Suc (len r)" by (simp add: g)
    have C: "butlast (contents (push b r)) = contents r"
      using tn by (simp add: contents_def Let_def g)
    show ?thesis using I L C by simp
  qed
qed

lemma maxSize_pos: "0 < maxSize"
  by (simp add: maxSize_def)

definition bounded :: "'a list \<Rightarrow> 'a list" where
  "bounded xs = (if length xs \<ge> maxSize then tl xs else xs)"

lemma push_general:
  assumes inv: "ring_inv r"
  shows "ring_inv (push b r) \<and> len (push b r) = Suc (length (bounded (contents r)))
         \<and> butlast (contents (push b r)) = bounded (contents r)"
proof (cases "len r \<ge> maxSize")
  case True
  have le: "len r \<le> maxSize" using ring_inv_fields(3,4)[OF inv] by simp
  have "len (snd (pop r)) < maxSize" using le maxSize_pos by (simp add: pop_fields)
  from push_small[OF pop_inv[OF inv] this, of b] show ?thesis
    using True by (simp add: push_overflow[OF inv True] pop_contents[OF inv] bounded_def pop_fields)
next
  case False
  then show ?thesis using push_small[OF inv, of b] by (simp add: bounded_def)
qed

text \<open>Writing and reading through \<open>pushed\<close>.\<close>

lemma setPushed_live:
  assumes inv: "ring_inv r" and pos: "0 < len r"
  shows "\<exists>r'. setPushed f r = Inr r' \<and> ring_inv r' \<and> len r' = len r
           \<and> contents r' = butlast (contents r) @ [f (last (contents r))]"
proof -
  let ?c = "container r"
  let ?n = "length ?c"
  let ?t = "wp ?n (tail r)"
  let ?k = "widx ?n ?t (len r - 1)"
  note fl = ring_inv_fields[OF inv]
  have n0: "0 < ?n" using inv pos by (rule ring_inv_pos)
  have tn: "?t < ?n" using n0 by (simp add: wp_less)
  have kn: "?k < ?n" using tn fl(3) by (simp add: widx_less)
  let ?r' = "r\<lparr>container := ?c[?k := f (?c ! ?k)]\<rparr>"
  have S: "setPushed f r = Inr ?r'" using fl(6)[OF pos] by (simp add: setPushed_def)
  have I: "ring_inv ?r'" using inv by (simp add: ring_inv_def Let_def)
  have ne: "contents r \<noteq> []" using pos by (metis length_contents length_greater_0_conv)
  have last: "last (contents r) = ?c ! ?k"
    using ne pos by (simp add: last_conv_nth contents_nth)
  have C: "contents ?r' = butlast (contents r) @ [f (last (contents r))]"
  proof (rule nth_equalityI)
    show "length (contents ?r') = length (butlast (contents r) @ [f (last (contents r))])"
      using pos by simp
  next
    fix i assume "i < length (contents ?r')"
    then have i: "i < len r" by simp
    show "contents ?r' ! i = (butlast (contents r) @ [f (last (contents r))]) ! i"
    proof (cases "i = len r - 1")
      case True
      then show ?thesis using i kn by (simp add: contents_nth nth_append last)
    next
      case False
      then have lt: "i < len r - 1" using i by simp
      have b1: "i < ?n" and b2: "len r - 1 < ?n" using lt fl(3) by linarith+
      have "widx ?n ?t i \<noteq> ?k"
        using widx_inj[OF tn b1 b2] lt by auto
      then show ?thesis using i lt by (simp add: contents_nth nth_append nth_butlast)
    qed
  qed
  show ?thesis using S I C by simp
qed

lemma getPushed_live:
  assumes inv: "ring_inv r" and pos: "0 < len r"
  shows "getPushed r = Inr (Some (last (contents r)))"
proof -
  note fl = ring_inv_fields[OF inv]
  have n0: "0 < length (container r)" using inv pos by (rule ring_inv_pos)
  have tn: "wp (length (container r)) (tail r) < length (container r)" using n0 by (simp add: wp_less)
  have kn: "widx (length (container r)) (wp (length (container r)) (tail r)) (len r - 1) < length (container r)"
    using tn fl(3) by (simp add: widx_less)
  have ne: "contents r \<noteq> []" using pos by (metis length_contents length_greater_0_conv)
  show ?thesis using fl(6)[OF pos] kn ne pos
    by (simp add: getPushed_def last_conv_nth contents_nth)
qed

lemma push_write:
  assumes inv: "ring_inv r" and const: "\<And>e. f e = v"
  shows "\<exists>r'. setPushed f (push b r) = Inr r' \<and> ring_inv r'
           \<and> contents r' = bounded (contents r) @ [v]"
proof -
  from push_general[OF inv, of b]
  have I: "ring_inv (push b r)" and L: "0 < len (push b r)"
    and B: "butlast (contents (push b r)) = bounded (contents r)" by simp_all
  from setPushed_live[OF I L, of f] show ?thesis by (auto simp: B const)
qed

section \<open>Overflow of a ring\<close>

text \<open>Pushing a list of items the way the callers do (\<open>push()\<close>, then write the
  item through \<open>pushed\<close>), and popping \<open>n\<close> times.\<close>

fun pushItems :: "'a \<Rightarrow> 'a list \<Rightarrow> 'a ring \<Rightarrow> error + 'a ring" where
  "pushItems blank [] r = Inr r"
| "pushItems blank (x # xs) r = bind_err (setPushed (\<lambda>_. x) (push blank r)) (pushItems blank xs)"

fun popN :: "nat \<Rightarrow> 'a ring \<Rightarrow> 'a option list \<times> 'a ring" where
  "popN 0 r = ([], r)"
| "popN (Suc n) r = (fst (pop r) # fst (popN n (snd (pop r))), snd (popN n (snd (pop r))))"

definition lastN :: "'a list \<Rightarrow> 'a list" where
  "lastN ys = drop (length ys - maxSize) ys"

lemma contents_le: "ring_inv r \<Longrightarrow> length (contents r) \<le> maxSize"
  using ring_inv_fields(3,4)[of r] by simp

lemma lastN_bounded:
  assumes "ys \<noteq> []"
  shows "lastN (bounded c @ ys) = lastN (c @ ys)"
proof (cases "length c \<ge> maxSize")
  case False
  then show ?thesis by (simp add: bounded_def)
next
  case True
  then obtain a c' where c: "c = a # c'" using maxSize_pos by (cases c) auto
  have "length c' + length ys - maxSize = (length c + length ys - maxSize) - 1"
    using c by simp
  moreover have "0 < length c + length ys - maxSize" using True assms by (cases ys) auto
  ultimately show ?thesis using True c
    by (simp add: bounded_def lastN_def drop_Cons')
qed

lemma pushItems_contents:
  assumes "ring_inv r"
  shows "\<exists>r'. pushItems b xs r = Inr r' \<and> ring_inv r' \<and> contents r' = lastN (contents r @ xs)"
  using assms
proof (induction xs arbitrary: r)
  case Nil
  then show ?case using contents_le[of r] by (simp add: lastN_def)
next
  case (Cons x xs)
  from push_write[OF Cons.prems, of "\<lambda>_. x" x b]
  obtain r1 where r1: "setPushed (\<lambda>_. x) (push b r) = Inr r1" "ring_inv r1"
    "contents r1 = bounded (contents r) @ [x]" by auto
  from Cons.IH[OF r1(2)] obtain r' where r': "pushItems b xs r1 = Inr r'" "ring_inv r'"
    "contents r' = lastN (contents r1 @ xs)" by auto
  have "lastN (contents r1 @ xs) = lastN (contents r @ x # xs)"
    using lastN_bounded[of "x # xs" "contents r"] by (simp add: r1(3))
  then show ?case using r1 r' by (simp add: bind_err_def)
qed

lemma popN_contents:
  assumes "ring_inv r" "n \<le> len r"
  shows "fst (popN n r) = map Some (take n (contents r)) \<and> ring_inv (snd (popN n r))
         \<and> contents (snd (popN n r)) = drop n (contents r)"
  using assms
proof (induction n arbitrary: r)
  case 0
  then show ?case by simp
next
  case (Suc n)
  have pos: "0 < len r" using Suc.prems by simp
  have ne: "contents r \<noteq> []" using pos by (metis length_contents length_greater_0_conv)
  have "n \<le> len (snd (pop r))" using Suc.prems by (simp add: pop_fields)
  from Suc.IH[OF pop_inv[OF Suc.prems(1)] this]
  show ?case using ne
    by (simp add: pop_fst[OF Suc.prems(1) pos] pop_contents[OF Suc.prems(1)] take_Suc drop_Suc)
qed

text \<open>
  C3. Pushing more than 50 items with no pop in between leaves exactly 50 in the ring;
  50 pops return the 50 most recent items, oldest first, and the next pop returns
  \<open>undefined\<close>. This holds from any state of the ring the operations can produce.
\<close>

theorem ring_overflow_keeps_newest:
  assumes "ring_inv r" "length xs > maxSize"
  shows "\<exists>r'. pushItems blank xs r = Inr r' \<and> len r' = maxSize
           \<and> fst (popN maxSize r') = map Some (drop (length xs - maxSize) xs)
           \<and> fst (pop (snd (popN maxSize r'))) = None"
proof -
  from pushItems_contents[OF assms(1), of blank xs]
  obtain r' where r': "pushItems blank xs r = Inr r'" "ring_inv r'"
    "contents r' = lastN (contents r @ xs)" by auto
  have c: "contents r' = drop (length xs - maxSize) xs"
    using assms(2) by (simp add: r'(3) lastN_def)
  have l: "len r' = maxSize" using c assms(2) by (metis length_contents length_drop diff_diff_cancel less_imp_le)
  from popN_contents[OF r'(2), of maxSize] l
  have p: "fst (popN maxSize r') = map Some (contents r')" "len (snd (popN maxSize r')) = 0"
    by (simp_all, metis length_contents length_drop diff_self_eq_0 list.size(3) drop_all order_refl)
  show ?thesis using r'(1) l p c by (simp add: pop_empty)
qed

theorem ring_overflow_keeps_newest_witness:
  "\<exists>r'. pushItems (0::nat) [0..<51] newRing = Inr r' \<and> len r' = maxSize
           \<and> fst (popN maxSize r') = map Some [1..<51]
           \<and> fst (pop (snd (popN maxSize r'))) = None"
  using ring_overflow_keeps_newest[of newRing "[0..<51]" "0::nat"]
  by (simp add: ring_inv_newRing maxSize_def drop_upt)

section \<open>Clearing a ring\<close>



section \<open>Captures and the queue they build\<close>

text \<open>
  A capture is one call of one of the five \<open>_addEvents...\<close> methods with its arguments.
  \<open>order\<close> is what the order buffer \<open>_allEvents\<close> holds, oldest first: the ring each
  entry refers to.
\<close>

datatype capture =
    ButtonDown pointerEvent
  | ButtonUp pointerEvent
  | DoubleTap string
  | Touch "ref option" rat rat
  | MultiTouch "ref option" "ref option" rat rat "pointerTouch option" "pointerTouch option"

fun applyCapture :: "capture \<Rightarrow> input \<Rightarrow> error + input" where
  "applyCapture (ButtonDown ev) s = addEventsButtonDown ev s"
| "applyCapture (ButtonUp ev) s = addEventsButtonUp ev s"
| "applyCapture (DoubleTap t) s = addEventsDoubleTap t s"
| "applyCapture (Touch p ox oy) s = addEventsTouch p ox oy s"
| "applyCapture (MultiTouch pA pB pp pd ppan pan) s = addEventsMultiTouch pA pB pp pd ppan pan s"

fun applyCaptures :: "capture list \<Rightarrow> input \<Rightarrow> error + input" where
  "applyCaptures [] s = Inr s"
| "applyCaptures (c # cs) s = bind_err (applyCapture c s) (applyCaptures cs)"

definition order :: "input \<Rightarrow> bufferRef option list" where
  "order s = map buffer (contents (u_allEvents s))"

definition rings_inv :: "input \<Rightarrow> bool" where
  "rings_inv s \<longleftrightarrow>
     ring_inv (u_allEvents s) \<and> ring_inv (u_eventsButtonDown s) \<and> ring_inv (u_eventsButtonUp s) \<and>
     ring_inv (u_eventsDoubleTap s) \<and> ring_inv (u_eventsTouch s) \<and> ring_inv (u_eventsMultiTouch s)"

lemma bind_err_Inr [simp]: "bind_err (Inr v) f = f v"
  by (simp add: bind_err_def)

lemma bind_err_Inl [simp]: "bind_err (Inl e) f = Inl e"
  by (simp add: bind_err_def)

lemma bounded_map: "map f (bounded xs) = bounded (map f xs)"
  by (simp add: bounded_def map_tl)


lemma iEvent_const: "e\<lparr>buffer := Some b\<rparr> = \<lparr>buffer = Some b\<rparr>"
  by (cases e) simp

lemma pushAllEvents_ok:
  assumes "ring_inv (u_allEvents s)"
  shows "\<exists>q. pushAllEvents b s = Inr (s\<lparr>u_allEvents := q\<rparr>) \<and> ring_inv q
           \<and> map buffer (contents q) = bounded (order s) @ [Some b]"
proof -
  from push_write[OF assms, of "\<lambda>e. e\<lparr>buffer := Some b\<rparr>" "\<lparr>buffer = Some b\<rparr>" blankIEvent]
  obtain q where q: "setPushed (\<lambda>e. e\<lparr>buffer := Some b\<rparr>) (push blankIEvent (u_allEvents s)) = Inr q"
    "ring_inv q" "contents q = bounded (contents (u_allEvents s)) @ [\<lparr>buffer = Some b\<rparr>]"
    by (auto simp: iEvent_const)
  show ?thesis
    using q by (auto simp: pushAllEvents_def order_def bounded_map)
qed

lemma lastPushedIs_ok:
  assumes "ring_inv (u_allEvents s)"
  shows "lastPushedIs b s = Inr (order s \<noteq> [] \<and> last (order s) = Some b)"
proof (cases "0 < len (u_allEvents s)")
  case False
  then show ?thesis by (simp add: lastPushedIs_def order_def contents_def)
next
  case True
  then have ne: "contents (u_allEvents s) \<noteq> []" by (metis length_contents length_greater_0_conv)
  show ?thesis
    using True ne getPushed_live[OF assms True]
    by (simp add: lastPushedIs_def COALESCE_def order_def last_map)
qed




lemma multiTouchEvent_const:
  "e\<lparr>pointA := pA, pointB := pB, previousPinchSquaredDistance := pp, pinchSquaredDistance := pd,
     previousMultiTouchPanPosition := ppan, multiTouchPanPosition := pan\<rparr>
   = \<lparr>pointA = pA, pointB = pB, previousPinchSquaredDistance = pp, pinchSquaredDistance = pd,
      previousMultiTouchPanPosition = ppan, multiTouchPanPosition = pan\<rparr>"
  by (cases e) simp







lemma addEventsMultiTouch_new:
  assumes "u_defferCallback s" "ring_inv (u_allEvents s)" "ring_inv (u_eventsMultiTouch s)"
    and "\<not> (order s \<noteq> [] \<and> last (order s) = Some EventsMultiTouch)"
  shows "\<exists>r q. addEventsMultiTouch pA pB pp pd ppan pan s = Inr (s\<lparr>u_eventsMultiTouch := r, u_allEvents := q\<rparr>)
           \<and> ring_inv r \<and> ring_inv q
           \<and> contents r = bounded (contents (u_eventsMultiTouch s)) @
               [\<lparr>pointA = pA, pointB = pB,
                 previousPinchSquaredDistance = u_previousPinchSquaredDistance s,
                 pinchSquaredDistance = pd,
                 previousMultiTouchPanPosition = u_previousMultiTouchPanPosition s,
                 multiTouchPanPosition = pan\<rparr>]
           \<and> map buffer (contents q) = bounded (order s) @ [Some EventsMultiTouch]"
proof -
  let ?f = "\<lambda>e. e\<lparr>pointA := pA, pointB := pB,
      previousPinchSquaredDistance := u_previousPinchSquaredDistance s,
      pinchSquaredDistance := pd,
      previousMultiTouchPanPosition := u_previousMultiTouchPanPosition s,
      multiTouchPanPosition := pan\<rparr>"
  let ?v = "\<lparr>pointA = pA, pointB = pB,
      previousPinchSquaredDistance = u_previousPinchSquaredDistance s,
      pinchSquaredDistance = pd,
      previousMultiTouchPanPosition = u_previousMultiTouchPanPosition s,
      multiTouchPanPosition = pan\<rparr>"
  from push_write[OF assms(3), of ?f ?v blankMultiTouchEvent]
  obtain r where r: "setPushed ?f (push blankMultiTouchEvent (u_eventsMultiTouch s)) = Inr r"
    "ring_inv r" "contents r = bounded (contents (u_eventsMultiTouch s)) @ [?v]"
    by (auto simp: multiTouchEvent_const)
  from pushAllEvents_ok[of "s\<lparr>u_eventsMultiTouch := r\<rparr>" EventsMultiTouch] assms(2)
  obtain q where q: "pushAllEvents EventsMultiTouch (s\<lparr>u_eventsMultiTouch := r\<rparr>) = Inr (s\<lparr>u_eventsMultiTouch := r, u_allEvents := q\<rparr>)"
    "ring_inv q" "map buffer (contents q) = bounded (order s) @ [Some EventsMultiTouch]"
    by (auto simp: order_def)
  show ?thesis using assms(1,4) r q lastPushedIs_ok[OF assms(2), of EventsMultiTouch]
    by (auto simp: addEventsMultiTouch_def)
qed

lemma addEventsMultiTouch_merge:
  assumes "u_defferCallback s" "ring_inv (u_allEvents s)" "ring_inv (u_eventsMultiTouch s)"
    and "order s \<noteq> []" "last (order s) = Some EventsMultiTouch" "0 < len (u_eventsMultiTouch s)"
  shows "\<exists>r. addEventsMultiTouch pA pB pp pd ppan pan s = Inr (s\<lparr>u_eventsMultiTouch := r\<rparr>) \<and> ring_inv r
           \<and> contents r = butlast (contents (u_eventsMultiTouch s)) @
               [(last (contents (u_eventsMultiTouch s)))\<lparr>pointA := pA, pointB := pB,
                  pinchSquaredDistance := pinchSquaredDistance (last (contents (u_eventsMultiTouch s))) + pd,
                  multiTouchPanPosition := pan\<rparr>]"
proof -
  from setPushed_live[OF assms(3,6), of "\<lambda>e. e\<lparr>pointA := pA, pointB := pB,
      pinchSquaredDistance := pinchSquaredDistance e + pd, multiTouchPanPosition := pan\<rparr>"]
  show ?thesis using assms(1,4,5) lastPushedIs_ok[OF assms(2), of EventsMultiTouch]
    by (auto simp: addEventsMultiTouch_def)
qed

section \<open>The queue as one list of events\<close>

text \<open>
  While nothing has been evicted, the six rings together hold one list of events in
  capture order: the order buffer holds their kinds, and each per-kind ring holds the
  events of its kind. \<open>enqueue\<close> is the coalescing rule on that list: a Touch or
  MultiTouch capture whose predecessor in the queue has the same kind is merged into
  it, any other capture is appended.
\<close>

datatype queued =
    QButtonDown buttonEvent
  | QButtonUp buttonEvent
  | QDoubleTap doubleTapEvent
  | QTouch touchEvent
  | QMultiTouch multiTouchEvent

fun tagOf :: "queued \<Rightarrow> bufferRef" where
  "tagOf (QButtonDown e) = EventsButtonDown"
| "tagOf (QButtonUp e) = EventsButtonUp"
| "tagOf (QDoubleTap e) = EventsDoubleTap"
| "tagOf (QTouch e) = EventsTouch"
| "tagOf (QMultiTouch e) = EventsMultiTouch"

fun downsOf :: "queued list \<Rightarrow> buttonEvent list" where
  "downsOf [] = []"
| "downsOf (QButtonDown e # q) = e # downsOf q"
| "downsOf (_ # q) = downsOf q"

fun upsOf :: "queued list \<Rightarrow> buttonEvent list" where
  "upsOf [] = []"
| "upsOf (QButtonUp e # q) = e # upsOf q"
| "upsOf (_ # q) = upsOf q"

fun tapsOf :: "queued list \<Rightarrow> doubleTapEvent list" where
  "tapsOf [] = []"
| "tapsOf (QDoubleTap e # q) = e # tapsOf q"
| "tapsOf (_ # q) = tapsOf q"

fun touchesOf :: "queued list \<Rightarrow> touchEvent list" where
  "touchesOf [] = []"
| "touchesOf (QTouch e # q) = e # touchesOf q"
| "touchesOf (_ # q) = touchesOf q"

fun multisOf :: "queued list \<Rightarrow> multiTouchEvent list" where
  "multisOf [] = []"
| "multisOf (QMultiTouch e # q) = e # multisOf q"
| "multisOf (_ # q) = multisOf q"

definition synced :: "input \<Rightarrow> queued list \<Rightarrow> bool" where
  "synced s q \<longleftrightarrow>
     rings_inv s \<and> order s = map (\<lambda>e. Some (tagOf e)) q \<and>
     contents (u_eventsButtonDown s) = downsOf q \<and>
     contents (u_eventsButtonUp s) = upsOf q \<and>
     contents (u_eventsDoubleTap s) = tapsOf q \<and>
     contents (u_eventsTouch s) = touchesOf q \<and>
     contents (u_eventsMultiTouch s) = multisOf q"

definition lastQ :: "queued list \<Rightarrow> queued option" where
  "lastQ q = (if q = [] then None else Some (last q))"


definition outside :: "input \<Rightarrow> input" where
  "outside s = s\<lparr>u_allEvents := newRing, u_eventsButtonDown := newRing, u_eventsButtonUp := newRing,
                 u_eventsDoubleTap := newRing, u_eventsTouch := newRing, u_eventsMultiTouch := newRing\<rparr>"

lemma downsOf_append [simp]: "downsOf (a @ b) = downsOf a @ downsOf b"
  by (induction a rule: downsOf.induct) simp_all

lemma upsOf_append [simp]: "upsOf (a @ b) = upsOf a @ upsOf b"
  by (induction a rule: upsOf.induct) simp_all

lemma tapsOf_append [simp]: "tapsOf (a @ b) = tapsOf a @ tapsOf b"
  by (induction a rule: tapsOf.induct) simp_all

lemma touchesOf_append [simp]: "touchesOf (a @ b) = touchesOf a @ touchesOf b"
  by (induction a rule: touchesOf.induct) simp_all

lemma multisOf_append [simp]: "multisOf (a @ b) = multisOf a @ multisOf b"
  by (induction a rule: multisOf.induct) simp_all







lemma outside_upd [simp]:
  "outside (s\<lparr>u_allEvents := q\<rparr>) = outside s"
  "outside (s\<lparr>u_eventsButtonDown := r1\<rparr>) = outside s"
  "outside (s\<lparr>u_eventsButtonUp := r2\<rparr>) = outside s"
  "outside (s\<lparr>u_eventsDoubleTap := r3\<rparr>) = outside s"
  "outside (s\<lparr>u_eventsTouch := r4\<rparr>) = outside s"
  "outside (s\<lparr>u_eventsMultiTouch := r5\<rparr>) = outside s"
  by (simp_all add: outside_def)

lemma synced_length: "synced s q \<Longrightarrow> length q = len (u_allEvents s)"
  by (metis synced_def order_def length_map length_contents)

lemma synced_le: "synced s q \<Longrightarrow> length q \<le> maxSize"
  using ring_inv_fields(3,4)[of "u_allEvents s"] synced_length[of s q]
  by (simp add: synced_def rings_inv_def)




section \<open>Draining\<close>

fun callsOf :: "queued \<Rightarrow> call list" where
  "callsOf (QButtonDown e) = [OnButtonDown (event e), NotifyButtonDown e]"
| "callsOf (QButtonUp e) = [OnButtonUp (event e), NotifyButtonUp e]"
| "callsOf (QDoubleTap e) = [OnDoubleTap (dt_type e), NotifyDoubleTap e]"
| "callsOf (QTouch e) = [OnTouch (point e) (offsetX e) (offsetY e), NotifyTouch e]"
| "callsOf (QMultiTouch e) =
     [OnMultiTouch (pointA e) (pointB e) (previousPinchSquaredDistance e) (pinchSquaredDistance e)
        (previousMultiTouchPanPosition e) (multiTouchPanPosition e),
      NotifyMultiTouch e]"


definition drainFrame :: "input \<Rightarrow> input" where
  "drainFrame s = (outside s)\<lparr>calls := [], u_previousPinchSquaredDistance := 0,
                               u_previousMultiTouchPanPosition := None\<rparr>"

lemma drainFrame_upd [simp]:
  "drainFrame (s\<lparr>u_allEvents := q\<rparr>) = drainFrame s"
  "drainFrame (s\<lparr>u_eventsButtonDown := r1\<rparr>) = drainFrame s"
  "drainFrame (s\<lparr>u_eventsButtonUp := r2\<rparr>) = drainFrame s"
  "drainFrame (s\<lparr>u_eventsDoubleTap := r3\<rparr>) = drainFrame s"
  "drainFrame (s\<lparr>u_eventsTouch := r4\<rparr>) = drainFrame s"
  "drainFrame (s\<lparr>u_eventsMultiTouch := r5\<rparr>) = drainFrame s"
  "drainFrame (s\<lparr>calls := cl\<rparr>) = drainFrame s"
  "drainFrame (s\<lparr>u_previousPinchSquaredDistance := pp\<rparr>) = drainFrame s"
  "drainFrame (s\<lparr>u_previousMultiTouchPanPosition := ppan\<rparr>) = drainFrame s"
  by (simp_all add: drainFrame_def outside_def)





fun kindOf :: "capture \<Rightarrow> bufferRef" where
  "kindOf (ButtonDown ev) = EventsButtonDown"
| "kindOf (ButtonUp ev) = EventsButtonUp"
| "kindOf (DoubleTap t) = EventsDoubleTap"
| "kindOf (Touch p ox oy) = EventsTouch"
| "kindOf (MultiTouch pA pB pp pd ppan pan) = EventsMultiTouch"

definition coalescing :: "bufferRef \<Rightarrow> bool" where
  "coalescing k \<longleftrightarrow> k = EventsTouch \<or> k = EventsMultiTouch"

fun mergesAfter :: "bufferRef option \<Rightarrow> capture list \<Rightarrow> nat" where
  "mergesAfter prev [] = 0"
| "mergesAfter prev (c # cs) =
     (if prev = Some (kindOf c) \<and> coalescing (kindOf c) then 1 else 0) + mergesAfter (Some (kindOf c)) cs"









lemma mergesAfter_le: "mergesAfter prev cs \<le> length cs"
  by (induction cs arbitrary: prev) (auto simp: le_SucI)










definition queueLengths :: "input \<Rightarrow> nat \<times> nat" where
  "queueLengths s =
     (len (u_allEvents s),
      len (u_eventsButtonDown s) + len (u_eventsButtonUp s) + len (u_eventsDoubleTap s)
        + len (u_eventsTouch s) + len (u_eventsMultiTouch s))"




text \<open>
  C6 fails on the code. After 50 double taps and one touch, the order buffer has
  evicted its oldest entry and holds 50, while the per-kind rings still hold 51 events
  between them; the drain that follows empties the order buffer and leaves one event
  in its ring.
\<close>

theorem overflow_desynchronises:
  "map_sum id queueLengths
     (applyCaptures (replicate 50 (DoubleTap ''mouse'') @ [Touch None 1 0]) attached)
   = Inr (50, 51)
   \<and> map_sum id queueLengths
     (bind_err (applyCaptures (replicate 50 (DoubleTap ''mouse'') @ [Touch None 1 0]) attached) checkInputs)
   = Inr (0, 1)"
  by code_simp

section \<open>Runs of motion events\<close>

definition multiTouchOf :: "multiTouchEvent \<Rightarrow> capture" where
  "multiTouchOf m =
     MultiTouch (pointA m) (pointB m) (previousPinchSquaredDistance m) (pinchSquaredDistance m)
       (previousMultiTouchPanPosition m) (multiTouchPanPosition m)"


fun mergeRun :: "multiTouchEvent \<Rightarrow> multiTouchEvent list \<Rightarrow> multiTouchEvent" where
  "mergeRun e [] = e"
| "mergeRun e (m # ms) =
     mergeRun (e\<lparr>pointA := pointA m, pointB := pointB m,
                 pinchSquaredDistance := pinchSquaredDistance e + pinchSquaredDistance m,
                 multiTouchPanPosition := multiTouchPanPosition m\<rparr>) ms"

lemma mergeRun_fields:
  "previousPinchSquaredDistance (mergeRun e ms) = previousPinchSquaredDistance e"
  "previousMultiTouchPanPosition (mergeRun e ms) = previousMultiTouchPanPosition e"
  "pinchSquaredDistance (mergeRun e ms) = pinchSquaredDistance e + sum_list (map pinchSquaredDistance ms)"
  "pointA (mergeRun e ms) = pointA (last (e # ms))"
  "pointB (mergeRun e ms) = pointB (last (e # ms))"
  "multiTouchPanPosition (mergeRun e ms) = multiTouchPanPosition (last (e # ms))"
  by (induction ms arbitrary: e) simp_all

lemma mergeRun_eq:
  "mergeRun e ms =
     \<lparr>pointA = pointA (last (e # ms)), pointB = pointB (last (e # ms)),
      previousPinchSquaredDistance = previousPinchSquaredDistance e,
      pinchSquaredDistance = pinchSquaredDistance e + sum_list (map pinchSquaredDistance ms),
      previousMultiTouchPanPosition = previousMultiTouchPanPosition e,
      multiTouchPanPosition = multiTouchPanPosition (last (e # ms))\<rparr>"
  by (rule multiTouchEvent.equality) (simp_all only: mergeRun_fields multiTouchEvent.simps, simp)

lemma merge_run:
  assumes "u_defferCallback s" "ring_inv (u_allEvents s)" "ring_inv (u_eventsMultiTouch s)"
    and "order s \<noteq> []" "last (order s) = Some EventsMultiTouch"
    and "contents (u_eventsMultiTouch s) = xs @ [e]"
  shows "\<exists>r. applyCaptures (map multiTouchOf ms) s = Inr (s\<lparr>u_eventsMultiTouch := r\<rparr>) \<and> ring_inv r
           \<and> contents r = xs @ [mergeRun e ms]"
  using assms
proof (induction ms arbitrary: s e)
  case Nil
  show ?case using Nil.prems by (intro exI[of _ "u_eventsMultiTouch s"]) simp
next
  case (Cons m ms)
  have pos: "0 < len (u_eventsMultiTouch s)"
    using Cons.prems(6) by (metis length_contents length_greater_0_conv snoc_eq_iff_butlast)
  let ?e' = "e\<lparr>pointA := pointA m, pointB := pointB m,
                 pinchSquaredDistance := pinchSquaredDistance e + pinchSquaredDistance m,
                 multiTouchPanPosition := multiTouchPanPosition m\<rparr>"
  from addEventsMultiTouch_merge[OF Cons.prems(1,2,3,4,5) pos, of "pointA m" "pointB m"
      "previousPinchSquaredDistance m" "pinchSquaredDistance m" "previousMultiTouchPanPosition m"
      "multiTouchPanPosition m"]
  obtain r1 where r1: "applyCapture (multiTouchOf m) s = Inr (s\<lparr>u_eventsMultiTouch := r1\<rparr>)"
    "ring_inv r1" "contents r1 = xs @ [?e']"
    by (auto simp: multiTouchOf_def Cons.prems(6))
  let ?s1 = "s\<lparr>u_eventsMultiTouch := r1\<rparr>"
  from Cons.IH[of ?s1 ?e'] Cons.prems r1
  obtain r where "applyCaptures (map multiTouchOf ms) ?s1 = Inr (?s1\<lparr>u_eventsMultiTouch := r\<rparr>)"
    "ring_inv r" "contents r = xs @ [mergeRun ?e' ms]"
    by (auto simp: order_def)
  then show ?case using r1 by (intro exI[of _ r]) simp
qed

text \<open>
  C5. A MultiTouch capture that starts a new slot, followed by any number of further
  MultiTouch captures: every one of these finds the order buffer's last entry on the
  MultiTouch ring and merges, both ring lengths stay as they were after the first, and
  the slot ends with the sum of the pinch distances, the points and pan position of
  the latest sample, and the previous distance and previous pan position that the
  first sample stored.
\<close>

theorem multitouch_run_merges:
  assumes "u_defferCallback s" "ring_inv (u_allEvents s)" "ring_inv (u_eventsMultiTouch s)"
    and "lastPushedIs EventsMultiTouch s = Inr False"
  shows "\<exists>s1 s'. applyCapture (multiTouchOf m) s = Inr s1
           \<and> applyCaptures (map multiTouchOf ms) s1 = Inr s'
           \<and> lastPushedIs EventsMultiTouch s1 = Inr True
           \<and> len (u_allEvents s') = len (u_allEvents s1)
           \<and> len (u_eventsMultiTouch s') = len (u_eventsMultiTouch s1)
           \<and> getPushed (u_eventsMultiTouch s') = Inr (Some
                \<lparr>pointA = pointA (last (m # ms)), pointB = pointB (last (m # ms)),
                 previousPinchSquaredDistance = u_previousPinchSquaredDistance s,
                 pinchSquaredDistance = sum_list (map pinchSquaredDistance (m # ms)),
                 previousMultiTouchPanPosition = u_previousMultiTouchPanPosition s,
                 multiTouchPanPosition = multiTouchPanPosition (last (m # ms))\<rparr>)"
proof -
  let ?e = "\<lparr>pointA = pointA m, pointB = pointB m,
      previousPinchSquaredDistance = u_previousPinchSquaredDistance s,
      pinchSquaredDistance = pinchSquaredDistance m,
      previousMultiTouchPanPosition = u_previousMultiTouchPanPosition s,
      multiTouchPanPosition = multiTouchPanPosition m\<rparr>"
  have no: "\<not> (order s \<noteq> [] \<and> last (order s) = Some EventsMultiTouch)"
    using assms(4) lastPushedIs_ok[OF assms(2), of EventsMultiTouch] by simp
  from addEventsMultiTouch_new[OF assms(1,2,3) no, of "pointA m" "pointB m"
      "previousPinchSquaredDistance m" "pinchSquaredDistance m" "previousMultiTouchPanPosition m"
      "multiTouchPanPosition m"]
  obtain r q where rq: "applyCapture (multiTouchOf m) s = Inr (s\<lparr>u_eventsMultiTouch := r, u_allEvents := q\<rparr>)"
    "ring_inv r" "ring_inv q"
    "contents r = bounded (contents (u_eventsMultiTouch s)) @ [?e]"
    "map buffer (contents q) = bounded (order s) @ [Some EventsMultiTouch]"
    by (auto simp: multiTouchOf_def)
  let ?s1 = "s\<lparr>u_eventsMultiTouch := r, u_allEvents := q\<rparr>"
  have o1: "order ?s1 \<noteq> []" "last (order ?s1) = Some EventsMultiTouch"
    using rq(5) by (simp_all add: order_def)
  have l1: "lastPushedIs EventsMultiTouch ?s1 = Inr True"
    using lastPushedIs_ok[of ?s1 EventsMultiTouch] rq(3) o1 by simp
  from merge_run[of ?s1 "bounded (contents (u_eventsMultiTouch s))" ?e ms] assms(1) rq o1
  obtain r' where r': "applyCaptures (map multiTouchOf ms) ?s1 = Inr (?s1\<lparr>u_eventsMultiTouch := r'\<rparr>)"
    "ring_inv r'" "contents r' = bounded (contents (u_eventsMultiTouch s)) @ [mergeRun ?e ms]"
    by auto
  have lr: "len r' = len r" using r'(3) rq(4) by (metis length_contents length_append_singleton)
  have pos: "0 < len r'" using r'(3) by (metis length_contents length_greater_0_conv snoc_eq_iff_butlast)
  have g: "getPushed r' = Inr (Some (mergeRun ?e ms))"
    using getPushed_live[OF r'(2) pos] r'(3) by simp
  show ?thesis
    using rq(1) r'(1) l1 lr g
    by (simp add: mergeRun_eq add.assoc)
qed

definition samplePinches :: "multiTouchEvent list" where
  "samplePinches =
     [\<lparr>pointA = Some 0, pointB = Some 1, previousPinchSquaredDistance = 0, pinchSquaredDistance = 100,
       previousMultiTouchPanPosition = None,
       multiTouchPanPosition = Some \<lparr>pt_x = 5, pt_y = 0, pt_pointerId = 1, pt_type = EventTypeCode POINTERMOVE\<rparr>\<rparr>,
      \<lparr>pointA = Some 0, pointB = Some 1, previousPinchSquaredDistance = 100, pinchSquaredDistance = 144,
       previousMultiTouchPanPosition = Some \<lparr>pt_x = 5, pt_y = 0, pt_pointerId = 1, pt_type = EventTypeCode POINTERMOVE\<rparr>,
       multiTouchPanPosition = Some \<lparr>pt_x = 6, pt_y = 0, pt_pointerId = 2, pt_type = EventTypeCode POINTERMOVE\<rparr>\<rparr>]"

theorem multitouch_run_merges_witness:
  "\<exists>s1 s'. applyCapture (multiTouchOf (hd samplePinches)) attached = Inr s1
           \<and> applyCaptures (map multiTouchOf (tl samplePinches)) s1 = Inr s'
           \<and> lastPushedIs EventsMultiTouch s1 = Inr True
           \<and> len (u_allEvents s') = len (u_allEvents s1)
           \<and> len (u_eventsMultiTouch s') = len (u_eventsMultiTouch s1)
           \<and> getPushed (u_eventsMultiTouch s') = Inr (Some
                \<lparr>pointA = Some 0, pointB = Some 1,
                 previousPinchSquaredDistance = 0,
                 pinchSquaredDistance = 244,
                 previousMultiTouchPanPosition = None,
                 multiTouchPanPosition = Some \<lparr>pt_x = 6, pt_y = 0, pt_pointerId = 2, pt_type = EventTypeCode POINTERMOVE\<rparr>\<rparr>)"
proof -
  have h1: "u_defferCallback attached" by (simp add: attached_def DEFFER_CALLBACK_def)
  have h2: "ring_inv (u_allEvents attached)" "ring_inv (u_eventsMultiTouch attached)"
    by (simp_all add: attached_def ring_inv_newRing)
  have h3: "lastPushedIs EventsMultiTouch attached = Inr False"
    by (simp add: lastPushedIs_def attached_def newRing_def)
  have p: "u_previousPinchSquaredDistance attached = 0" "u_previousMultiTouchPanPosition attached = None"
    by (simp_all add: attached_def)
  from multitouch_run_merges[OF h1 h2 h3, of "hd samplePinches" "tl samplePinches"]
  show ?thesis by (simp add: samplePinches_def p)
qed







lemma lastQ_snoc [simp]: "lastQ (q @ [e]) = Some e"
  by (simp add: lastQ_def)






section \<open>The drain always completes\<close>

lemma u_allEvents_dispatch [simp]: "u_allEvents (dispatch b s) = u_allEvents s"
  by (cases b) (simp_all add: dispatch_def split_def Let_def split: option.splits)

lemma pop_member:
  "fst (pop r) = Some e \<Longrightarrow> e \<in> set (container r)"
  by (auto simp: pop_def Let_def split: if_splits)

definition slotsEmpty :: "input \<Rightarrow> bool" where
  "slotsEmpty s \<longleftrightarrow>
     len (u_eventsButtonDown s) = 0 \<and> len (u_eventsButtonUp s) = 0 \<and> len (u_eventsDoubleTap s) = 0
     \<and> len (u_eventsTouch s) = 0 \<and> len (u_eventsMultiTouch s) = 0"

lemma dispatch_empty: "slotsEmpty s \<Longrightarrow> dispatch b s = s"
  by (cases b) (simp_all add: dispatch_def slotsEmpty_def pop_def)

text \<open>
  C8. When every entry of the order buffer's array carries its ring reference (the
  type \<open>IEvent\<close>; every capture writes it right after pushing), the drain returns
  normally with the order buffer empty, whatever the per-kind rings hold. An entry
  whose ring is empty is skipped: with all five rings empty no call is made.
\<close>

theorem drain_never_throws:
  assumes "\<forall>e \<in> set (container (u_allEvents s)). buffer e \<noteq> None"
  shows "\<exists>s'. checkInputs s = Inr s' \<and> len (u_allEvents s') = 0
           \<and> (slotsEmpty s \<longrightarrow> calls s' = calls s)"
  using assms
proof (induction "len (u_allEvents s)" arbitrary: s)
  case 0
  then have "checkInputs s = Inr s" by (subst checkInputs.simps) simp
  then show ?case using 0 by simp
next
  case (Suc n)
  let ?r = "snd (pop (u_allEvents s))"
  let ?s1 = "s\<lparr>u_allEvents := ?r\<rparr>"
  have pos: "0 < len (u_allEvents s)" using Suc(2) by simp
  have ln: "len ?r = n" using Suc(2) by (simp add: pop_fields)
  have e1: "slotsEmpty ?s1 = slotsEmpty s" by (simp add: slotsEmpty_def)
  show ?case
  proof (cases "fst (pop (u_allEvents s))")
    case None
    have c: "checkInputs s = checkInputs ?s1"
      using pos None by (subst checkInputs.simps) simp
    from Suc(1)[of ?s1] ln Suc(3) show ?thesis
      by (simp add: c pop_fields e1)
  next
    case (Some eb)
    then have "eb \<in> set (container (u_allEvents s))" by (rule pop_member)
    then obtain b where b: "buffer eb = Some b" using Suc(3) by auto
    have c: "checkInputs s = checkInputs (dispatch b ?s1)"
      using pos Some b by (subst checkInputs.simps) simp
    have d: "slotsEmpty s \<Longrightarrow> dispatch b ?s1 = ?s1" using e1 by (simp add: dispatch_empty)
    from Suc(1)[of "dispatch b ?s1"] ln Suc(3)
    obtain s' where s': "checkInputs (dispatch b ?s1) = Inr s'" "len (u_allEvents s') = 0"
      "slotsEmpty (dispatch b ?s1) \<longrightarrow> calls s' = calls (dispatch b ?s1)"
      by (auto simp: pop_fields)
    show ?thesis using s' c d e1 by auto
  qed
qed

definition orphanTag :: input where
  "orphanTag = attached\<lparr>u_allEvents :=
     \<lparr>head = 1, tail = 0, len = 1, container = [\<lparr>buffer = Some EventsTouch\<rparr>], pushed = PAt 0\<rparr>\<rparr>"

theorem drain_never_throws_witness:
  "\<exists>s'. checkInputs orphanTag = Inr s' \<and> len (u_allEvents s') = 0 \<and> calls s' = calls orphanTag"
proof -
  have h: "\<forall>e \<in> set (container (u_allEvents orphanTag)). buffer e \<noteq> None"
    by (simp add: orphanTag_def)
  have e: "slotsEmpty orphanTag"
    by (simp add: orphanTag_def slotsEmpty_def attached_def newRing_def)
  from drain_never_throws[OF h] e show ?thesis by auto
qed

section \<open>Immediate dispatch against the deferred queue\<close>



text \<open>What a run delivered: the sums of the \<open>onTouch\<close> offsets and of the
  \<open>onMultiTouch\<close> pinch distances, and the pan position of the last \<open>onMultiTouch\<close>.\<close>

fun delivered :: "call \<Rightarrow> rat \<times> rat \<times> rat \<times> pointerTouch option option" where
  "delivered (OnTouch p ox oy) = (ox, oy, 0, None)"
| "delivered (OnMultiTouch pA pB pp pd ppan pan) = (0, 0, pd, Some pan)"
| "delivered _ = (0, 0, 0, None)"

fun combine ::
  "rat \<times> rat \<times> rat \<times> pointerTouch option option \<Rightarrow> rat \<times> rat \<times> rat \<times> pointerTouch option option
     \<Rightarrow> rat \<times> rat \<times> rat \<times> pointerTouch option option" where
  "combine (x1, y1, p1, l1) (x2, y2, p2, l2) =
     (x1 + x2, y1 + y2, p1 + p2, (case l2 of None \<Rightarrow> l1 | Some v \<Rightarrow> Some v))"

fun totals :: "call list \<Rightarrow> rat \<times> rat \<times> rat \<times> pointerTouch option option" where
  "totals [] = (0, 0, 0, None)"
| "totals (c # cs) = combine (delivered c) (totals cs)"


lemma combine_zero_left [simp]: "combine (0, 0, 0, None) a = a"
  by (cases a rule: prod_cases4) (simp split: option.splits)

lemma combine_zero_right [simp]: "combine a (0, 0, 0, None) = a"
  by (cases a rule: prod_cases4) simp


lemma totals_callsOf_touch:
  "totals (callsOf (QTouch t)) = (offsetX t, offsetY t, 0, None)"
  by simp














section \<open>Loss of focus\<close>


definition withKeys :: "bool \<Rightarrow> bool \<Rightarrow> bool \<Rightarrow> bool \<Rightarrow> int \<Rightarrow> input \<Rightarrow> input" where
  "withKeys a c m sh b s =
     s\<lparr>u_altKey := a, u_ctrlKey := c, u_metaKey := m, u_shiftKey := sh, u_buttonsPressed := b\<rparr>"



lemma withKeys_fields [simp]:
  "u_pointA (withKeys a c m sh b s) = u_pointA s"
  "u_pointB (withKeys a c m sh b s) = u_pointB s"
  "buttons (withKeys a c m sh b s) = buttons s"
  by (simp_all add: withKeys_def)












section \<open>Lifting a button during a pinch\<close>


lemma liftPoint_frame: "\<exists>a b. liftPoint eng evt s = s\<lparr>u_pointA := a, u_pointB := b\<rparr>"
proof -
  have id: "\<And>t. t = t\<lparr>u_pointA := u_pointA t, u_pointB := u_pointB t\<rparr>" by simp
  show ?thesis
    unfolding liftPoint_def Let_def
    by (auto split: option.splits intro: exI[of _ None] id)
       (metis input.surjective input.update_convs(8,9))+
qed













section \<open>What every reachable state satisfies\<close>

text \<open>
  The cursor invariant holds of every ring that the five operations can produce from a
  new one, so the overflow result above applies to all of them.
\<close>

inductive reachRing :: "'a ring \<Rightarrow> bool" where
  reach_new: "reachRing newRing"
| reach_push: "reachRing r \<Longrightarrow> reachRing (push blank r)"
| reach_pop: "reachRing r \<Longrightarrow> reachRing (snd (pop r))"
| reach_set: "reachRing r \<Longrightarrow> setPushed f r = Inr r' \<Longrightarrow> reachRing r'"
| reach_clear: "reachRing r \<Longrightarrow> reachRing (clear r)"

lemma setPushed_inv: "ring_inv r \<Longrightarrow> setPushed f r = Inr r' \<Longrightarrow> ring_inv r'"
  by (cases "pushed r") (auto simp: setPushed_def ring_inv_def Let_def)

lemma clear_inv: "ring_inv (clear r)"
  by (simp add: clear_def ring_inv_def wp_def widx_def maxSize_def)

lemma reachRing_inv: "reachRing r \<Longrightarrow> ring_inv r"
proof (induction rule: reachRing.induct)
  case reach_new
  show ?case by (rule ring_inv_newRing)
next
  case (reach_push r blank)
  then show ?case using push_general[of r blank] by simp
next
  case (reach_pop r)
  then show ?case by (simp add: pop_inv)
next
  case (reach_set r f r')
  then show ?case by (simp add: setPushed_inv)
next
  case (reach_clear r)
  show ?case by (rule clear_inv)
qed


text \<open>
  For the controller: starting from the attached state, whatever pointer events,
  captures, drains and losses of focus happen (and whichever way the deferral switch is
  set), as long as nothing threw, all six rings satisfy the cursor invariant and every
  slot of the order buffer carries its ring reference. These are the conditions under
  which the drain was shown to complete.
\<close>

definition tagged :: "input \<Rightarrow> bool" where
  "tagged s \<longleftrightarrow> list_all (\<lambda>e. buffer e \<noteq> None) (container (u_allEvents s))"

definition sound :: "input \<Rightarrow> bool" where
  "sound s \<longleftrightarrow> rings_inv s \<and> tagged s"

lemma insert_update:
  "h \<le> length c \<Longrightarrow> (take h c @ b # drop h c)[h := x] = take h c @ x # drop h c"
  by (simp add: list_update_append)

lemma push_cases:
  "\<exists>h. h \<le> length (container r) \<and> pushed (push blank r) = PAt h
       \<and> (container (push blank r) = take h (container r) @ blank # drop h (container r)
            \<or> container (push blank r) = container r)"
proof -
  define r1 where "r1 = wrapPointers (if len r \<ge> maxSize then snd (pop r) else r)"
  have c: "container r1 = container r" by (simp add: r1_def pop_fields)
  have h: "head r1 \<le> length (container r)"
    unfolding r1_def by (simp add: wp_def pop_fields)
  have p: "push blank r =
      (if head r1 = tail r1 \<and> (len r1 > 0 \<or> length (container r1) = 0)
       then r1\<lparr>container := take (head r1) (container r1) @ blank # drop (head r1) (container r1),
               pushed := PAt (head r1),
               len := len r1 + 1, head := head r1 + 1, tail := tail r1 + 1\<rparr>
       else r1\<lparr>pushed := PAt (head r1), head := head r1 + 1, len := len r1 + 1\<rparr>)"
    unfolding push_def r1_def Let_def by (rule refl)
  show ?thesis
    by (rule exI[of _ "head r1"]) (simp add: p h c)
qed

lemma push_pushed_set:
  "\<exists>i. pushed (push blank r) = PAt i
       \<and> set ((container (push blank r))[i := x]) \<subseteq> insert x (set (container r))"
proof -
  from push_cases[of r blank] obtain h where hh: "h \<le> length (container r) \<and> pushed (push blank r) = PAt h
       \<and> (container (push blank r) = take h (container r) @ blank # drop h (container r)
            \<or> container (push blank r) = container r)"
    by (rule exE)
  note h = conjunct1[OF hh] conjunct1[OF conjunct2[OF hh]] conjunct2[OF conjunct2[OF hh]]
  from h(3) have "set ((container (push blank r))[h := x]) \<subseteq> insert x (set (container r))"
  proof
    assume g: "container (push blank r) = take h (container r) @ blank # drop h (container r)"
    have "(container (push blank r))[h := x] = take h (container r) @ x # drop h (container r)"
      by (simp only: g insert_update[OF h(1)])
    then have "set ((container (push blank r))[h := x])
        = set (take h (container r)) \<union> {x} \<union> set (drop h (container r))"
      by simp
    then show ?thesis
      using set_take_subset[of h "container r"] set_drop_subset[of h "container r"] by blast
  next
    assume g: "container (push blank r) = container r"
    show ?thesis using set_update_subset_insert[of "container r" h x] by (simp add: g)
  qed
  then show ?thesis using h(2) by (intro exI[of _ h] conjI)
qed

lemma pushAllEvents_sound:
  assumes "sound s" "pushAllEvents b s = Inr s'"
  shows "sound s'"
proof -
  have ri: "ring_inv (u_allEvents s)" using assms(1) by (simp add: sound_def rings_inv_def)
  from push_pushed_set[of blankIEvent "u_allEvents s" "\<lparr>buffer = Some b\<rparr>"]
  obtain i where ii: "pushed (push blankIEvent (u_allEvents s)) = PAt i
    \<and> set ((container (push blankIEvent (u_allEvents s)))[i := \<lparr>buffer = Some b\<rparr>])
       \<subseteq> insert \<lparr>buffer = Some b\<rparr> (set (container (u_allEvents s)))"
    by (rule exE)
  note i = conjunct1[OF ii] conjunct2[OF ii]
  let ?q = "(push blankIEvent (u_allEvents s))\<lparr>container :=
      (container (push blankIEvent (u_allEvents s)))[i := \<lparr>buffer = Some b\<rparr>]\<rparr>"
  have sp: "setPushed (\<lambda>e. e\<lparr>buffer := Some b\<rparr>) (push blankIEvent (u_allEvents s)) = Inr ?q"
    by (simp add: setPushed_def i(1) iEvent_const)
  have s': "s' = s\<lparr>u_allEvents := ?q\<rparr>"
    using assms(2) by (simp add: pushAllEvents_def sp)
  have "ring_inv ?q"
    using setPushed_inv[OF _ sp] push_general[OF ri, of blankIEvent] by simp
  moreover have "list_all (\<lambda>e. buffer e \<noteq> None) (container ?q)"
    using i(2) assms(1) by (auto simp: sound_def tagged_def list_all_iff)
  ultimately show ?thesis using assms(1) by (simp add: s' sound_def rings_inv_def tagged_def)
qed

lemma push_set_inv: "ring_inv r \<Longrightarrow> setPushed f (push blank r) = Inr r' \<Longrightarrow> ring_inv r'"
  using setPushed_inv[of "push blank r" f r'] push_general[of r blank] by simp

lemma sound_upd:
  "sound (s\<lparr>u_eventsButtonDown := newRing\<rparr>) \<Longrightarrow> ring_inv r \<Longrightarrow> sound (s\<lparr>u_eventsButtonDown := r\<rparr>)"
  "sound (s\<lparr>u_eventsButtonUp := newRing\<rparr>) \<Longrightarrow> ring_inv r \<Longrightarrow> sound (s\<lparr>u_eventsButtonUp := r\<rparr>)"
  "sound (s\<lparr>u_eventsDoubleTap := newRing\<rparr>) \<Longrightarrow> ring_inv r2 \<Longrightarrow> sound (s\<lparr>u_eventsDoubleTap := r2\<rparr>)"
  "sound (s\<lparr>u_eventsTouch := newRing\<rparr>) \<Longrightarrow> ring_inv r3 \<Longrightarrow> sound (s\<lparr>u_eventsTouch := r3\<rparr>)"
  "sound (s\<lparr>u_eventsMultiTouch := newRing\<rparr>) \<Longrightarrow> ring_inv r4 \<Longrightarrow> sound (s\<lparr>u_eventsMultiTouch := r4\<rparr>)"
  by (simp_all add: sound_def rings_inv_def tagged_def)

lemma sound_ring:
  assumes "sound s"
  shows "sound (s\<lparr>u_eventsButtonDown := newRing\<rparr>)" "sound (s\<lparr>u_eventsButtonUp := newRing\<rparr>)"
    "sound (s\<lparr>u_eventsDoubleTap := newRing\<rparr>)" "sound (s\<lparr>u_eventsTouch := newRing\<rparr>)"
    "sound (s\<lparr>u_eventsMultiTouch := newRing\<rparr>)"
    "ring_inv (u_eventsButtonDown s)" "ring_inv (u_eventsButtonUp s)" "ring_inv (u_eventsDoubleTap s)"
    "ring_inv (u_eventsTouch s)" "ring_inv (u_eventsMultiTouch s)" "ring_inv (u_allEvents s)"
  using assms by (simp_all add: sound_def rings_inv_def tagged_def ring_inv_newRing)

lemma sound_calls [simp]: "sound (s\<lparr>calls := c\<rparr>) = sound s"
  by (simp add: sound_def rings_inv_def tagged_def)

lemma bind_err_InrE:
  assumes "bind_err m f = Inr y"
  obtains x where "m = Inr x" "f x = Inr y"
  using assms by (cases m) (simp_all add: bind_err_def)

lemma capture_sound:
  assumes "sound s" "applyCapture c s = Inr s'"
  shows "sound s'"
proof (cases "u_defferCallback s")
  case False
  then show ?thesis using assms
    by (cases c) (auto simp: addEventsButtonDown_def addEventsButtonUp_def addEventsDoubleTap_def
        addEventsTouch_def addEventsMultiTouch_def)
next
  case True
  note r = sound_ring[OF assms(1)]
  show ?thesis
  proof (cases c)
    case (ButtonDown ev)
    have "bind_err (setPushed (\<lambda>e. e\<lparr>event := Some ev\<rparr>) (push blankButtonEvent (u_eventsButtonDown s)))
        (\<lambda>r. pushAllEvents EventsButtonDown (s\<lparr>u_eventsButtonDown := r\<rparr>)) = Inr s'"
      using assms(2) True ButtonDown by (simp add: addEventsButtonDown_def)
    then obtain r' where r': "setPushed (\<lambda>e. e\<lparr>event := Some ev\<rparr>) (push blankButtonEvent (u_eventsButtonDown s)) = Inr r'"
      "pushAllEvents EventsButtonDown (s\<lparr>u_eventsButtonDown := r'\<rparr>) = Inr s'"
      by (rule bind_err_InrE)
    have "sound (s\<lparr>u_eventsButtonDown := r'\<rparr>)"
      by (rule sound_upd(1)[OF r(1) push_set_inv[OF r(6) r'(1)]])
    then show ?thesis using r'(2) by (rule pushAllEvents_sound)
  next
    case (ButtonUp ev)
    have "bind_err (setPushed (\<lambda>e. e\<lparr>event := Some ev\<rparr>) (push blankButtonEvent (u_eventsButtonUp s)))
        (\<lambda>r. pushAllEvents EventsButtonUp (s\<lparr>u_eventsButtonUp := r\<rparr>)) = Inr s'"
      using assms(2) True ButtonUp by (simp add: addEventsButtonUp_def)
    then obtain r' where r': "setPushed (\<lambda>e. e\<lparr>event := Some ev\<rparr>) (push blankButtonEvent (u_eventsButtonUp s)) = Inr r'"
      "pushAllEvents EventsButtonUp (s\<lparr>u_eventsButtonUp := r'\<rparr>) = Inr s'"
      by (rule bind_err_InrE)
    have "sound (s\<lparr>u_eventsButtonUp := r'\<rparr>)"
      by (rule sound_upd(2)[OF r(2) push_set_inv[OF r(7) r'(1)]])
    then show ?thesis using r'(2) by (rule pushAllEvents_sound)
  next
    case (DoubleTap t)
    have "bind_err (setPushed (\<lambda>e. e\<lparr>dt_type := Some t\<rparr>) (push blankDoubleTapEvent (u_eventsDoubleTap s)))
        (\<lambda>r. pushAllEvents EventsDoubleTap (s\<lparr>u_eventsDoubleTap := r\<rparr>)) = Inr s'"
      using assms(2) True DoubleTap by (simp add: addEventsDoubleTap_def)
    then obtain r' where r': "setPushed (\<lambda>e. e\<lparr>dt_type := Some t\<rparr>) (push blankDoubleTapEvent (u_eventsDoubleTap s)) = Inr r'"
      "pushAllEvents EventsDoubleTap (s\<lparr>u_eventsDoubleTap := r'\<rparr>) = Inr s'"
      by (rule bind_err_InrE)
    have "sound (s\<lparr>u_eventsDoubleTap := r'\<rparr>)"
      by (rule sound_upd(3)[OF r(3) push_set_inv[OF r(8) r'(1)]])
    then show ?thesis using r'(2) by (rule pushAllEvents_sound)
  next
    case (Touch p ox oy)
    let ?merge = "\<lambda>e. e\<lparr>point := p, offsetX := offsetX e + ox, offsetY := offsetY e + oy\<rparr>"
    let ?assign = "\<lambda>e. e\<lparr>point := p, offsetX := ox, offsetY := oy\<rparr>"
    have "bind_err (lastPushedIs EventsTouch s) (\<lambda>same.
        if same
        then bind_err (setPushed ?merge (u_eventsTouch s)) (\<lambda>r. Inr (s\<lparr>u_eventsTouch := r\<rparr>))
        else bind_err (setPushed ?assign (push blankTouchEvent (u_eventsTouch s)))
               (\<lambda>r. pushAllEvents EventsTouch (s\<lparr>u_eventsTouch := r\<rparr>))) = Inr s'"
      using assms(2) True Touch by (simp add: addEventsTouch_def)
    then obtain same where sm: "lastPushedIs EventsTouch s = Inr same"
      "(if same
        then bind_err (setPushed ?merge (u_eventsTouch s)) (\<lambda>r. Inr (s\<lparr>u_eventsTouch := r\<rparr>))
        else bind_err (setPushed ?assign (push blankTouchEvent (u_eventsTouch s)))
               (\<lambda>r. pushAllEvents EventsTouch (s\<lparr>u_eventsTouch := r\<rparr>))) = Inr s'"
      by (rule bind_err_InrE)
    show ?thesis
    proof (cases same)
      case True
      then have "bind_err (setPushed ?merge (u_eventsTouch s)) (\<lambda>r. Inr (s\<lparr>u_eventsTouch := r\<rparr>)) = Inr s'"
        using sm(2) by simp
      then obtain r' where r': "setPushed ?merge (u_eventsTouch s) = Inr r'" "Inr (s\<lparr>u_eventsTouch := r'\<rparr>) = (Inr s' :: error + input)"
        by (rule bind_err_InrE)
      have "s' = s\<lparr>u_eventsTouch := r'\<rparr>" using r'(2) by simp
      then show ?thesis using sound_upd(4)[OF r(4) setPushed_inv[OF r(9) r'(1)]] by simp
    next
      case False
      then have "bind_err (setPushed ?assign (push blankTouchEvent (u_eventsTouch s)))
               (\<lambda>r. pushAllEvents EventsTouch (s\<lparr>u_eventsTouch := r\<rparr>)) = Inr s'"
        using sm(2) by simp
      then obtain r' where r': "setPushed ?assign (push blankTouchEvent (u_eventsTouch s)) = Inr r'"
        "pushAllEvents EventsTouch (s\<lparr>u_eventsTouch := r'\<rparr>) = Inr s'"
        by (rule bind_err_InrE)
      have "sound (s\<lparr>u_eventsTouch := r'\<rparr>)"
        by (rule sound_upd(4)[OF r(4) push_set_inv[OF r(9) r'(1)]])
      then show ?thesis using r'(2) by (rule pushAllEvents_sound)
    qed
  next
    case (MultiTouch pA pB pp pd ppan pan)
    let ?merge = "\<lambda>e. e\<lparr>pointA := pA, pointB := pB,
        pinchSquaredDistance := pinchSquaredDistance e + pd, multiTouchPanPosition := pan\<rparr>"
    let ?assign = "\<lambda>e. e\<lparr>pointA := pA, pointB := pB,
        previousPinchSquaredDistance := u_previousPinchSquaredDistance s,
        pinchSquaredDistance := pd,
        previousMultiTouchPanPosition := u_previousMultiTouchPanPosition s,
        multiTouchPanPosition := pan\<rparr>"
    have "bind_err (lastPushedIs EventsMultiTouch s) (\<lambda>same.
        if same
        then bind_err (setPushed ?merge (u_eventsMultiTouch s)) (\<lambda>r. Inr (s\<lparr>u_eventsMultiTouch := r\<rparr>))
        else bind_err (setPushed ?assign (push blankMultiTouchEvent (u_eventsMultiTouch s)))
               (\<lambda>r. pushAllEvents EventsMultiTouch (s\<lparr>u_eventsMultiTouch := r\<rparr>))) = Inr s'"
      using assms(2) True MultiTouch by (simp add: addEventsMultiTouch_def)
    then obtain same where sm: "lastPushedIs EventsMultiTouch s = Inr same"
      "(if same
        then bind_err (setPushed ?merge (u_eventsMultiTouch s)) (\<lambda>r. Inr (s\<lparr>u_eventsMultiTouch := r\<rparr>))
        else bind_err (setPushed ?assign (push blankMultiTouchEvent (u_eventsMultiTouch s)))
               (\<lambda>r. pushAllEvents EventsMultiTouch (s\<lparr>u_eventsMultiTouch := r\<rparr>))) = Inr s'"
      by (rule bind_err_InrE)
    show ?thesis
    proof (cases same)
      case True
      then have "bind_err (setPushed ?merge (u_eventsMultiTouch s)) (\<lambda>r. Inr (s\<lparr>u_eventsMultiTouch := r\<rparr>)) = Inr s'"
        using sm(2) by simp
      then obtain r' where r': "setPushed ?merge (u_eventsMultiTouch s) = Inr r'"
        "Inr (s\<lparr>u_eventsMultiTouch := r'\<rparr>) = (Inr s' :: error + input)"
        by (rule bind_err_InrE)
      have "s' = s\<lparr>u_eventsMultiTouch := r'\<rparr>" using r'(2) by simp
      then show ?thesis using sound_upd(5)[OF r(5) setPushed_inv[OF r(10) r'(1)]] by simp
    next
      case False
      then have "bind_err (setPushed ?assign (push blankMultiTouchEvent (u_eventsMultiTouch s)))
               (\<lambda>r. pushAllEvents EventsMultiTouch (s\<lparr>u_eventsMultiTouch := r\<rparr>)) = Inr s'"
        using sm(2) by simp
      then obtain r' where r': "setPushed ?assign (push blankMultiTouchEvent (u_eventsMultiTouch s)) = Inr r'"
        "pushAllEvents EventsMultiTouch (s\<lparr>u_eventsMultiTouch := r'\<rparr>) = Inr s'"
        by (rule bind_err_InrE)
      have "sound (s\<lparr>u_eventsMultiTouch := r'\<rparr>)"
        by (rule sound_upd(5)[OF r(5) push_set_inv[OF r(10) r'(1)]])
      then show ?thesis using r'(2) by (rule pushAllEvents_sound)
    qed
  qed
qed


lemma sound_frame:
  assumes "u_allEvents s' = u_allEvents s" "u_eventsButtonDown s' = u_eventsButtonDown s"
    "u_eventsButtonUp s' = u_eventsButtonUp s" "u_eventsDoubleTap s' = u_eventsDoubleTap s"
    "u_eventsTouch s' = u_eventsTouch s" "u_eventsMultiTouch s' = u_eventsMultiTouch s"
  shows "sound s' = sound s"
  using assms by (simp add: sound_def rings_inv_def tagged_def)

lemma container_newRing: "container newRing = []"
  by (simp add: newRing_def)

lemma sound_attached: "sound attached"
  by (simp add: sound_def rings_inv_def tagged_def attached_def ring_inv_newRing container_newRing)

lemma dispatch_sound: "sound s \<Longrightarrow> sound (dispatch b s)"
  by (cases b)
     (simp_all add: dispatch_def split_def Let_def sound_def rings_inv_def tagged_def pop_inv
        split: option.splits)

lemma drain_sound:
  assumes "sound s" "checkInputs s = Inr s'"
  shows "sound s'"
  using assms
proof (induction "len (u_allEvents s)" arbitrary: s)
  case 0
  then have "checkInputs s = Inr s" by (subst checkInputs.simps) simp
  then show ?case using 0 by simp
next
  case (Suc n)
  let ?r = "snd (pop (u_allEvents s))"
  let ?s1 = "s\<lparr>u_allEvents := ?r\<rparr>"
  have pos: "0 < len (u_allEvents s)" using Suc(2) by simp
  have ln: "len ?r = n" using Suc(2) by (simp add: pop_fields)
  have s1: "sound ?s1"
    using Suc(3) by (simp add: sound_def rings_inv_def tagged_def pop_inv pop_fields)
  show ?case
  proof (cases "fst (pop (u_allEvents s))")
    case None
    have c: "checkInputs s = checkInputs ?s1"
      using pos None by (subst checkInputs.simps) simp
    show ?thesis using Suc(1)[of ?s1] ln s1 Suc(4) by (simp add: c)
  next
    case (Some eb)
    show ?thesis
    proof (cases "buffer eb")
      case None
      have "checkInputs s = Inl TypeError"
        using pos Some None by (subst checkInputs.simps) simp
      then show ?thesis using Suc(4) by simp
    next
      case (Some b)
      have c: "checkInputs s = checkInputs (dispatch b ?s1)"
        using pos \<open>fst (pop (u_allEvents s)) = Some eb\<close> Some by (subst checkInputs.simps) simp
      show ?thesis
        using Suc(1)[of "dispatch b ?s1"] ln dispatch_sound[OF s1, of b] Suc(4) by (simp add: c)
    qed
  qed
qed

lemma onLostFocus_sound: "sound s \<Longrightarrow> sound (onLostFocus s)"
  by (simp add: onLostFocus_def sound_def rings_inv_def tagged_def)

lemma pointerInput_sound:
  assumes "sound s" "pointerInput eng p s = Inr s'"
  shows "sound s'"
proof -
  let ?evt = "pi_event p"
  let ?s0 = "s\<lparr>u_altKey := altKey ?evt, u_ctrlKey := ctrlKey ?evt, u_metaKey := metaKey ?evt,
                 u_shiftKey := shiftKey ?evt, u_buttonsPressed := evt_buttons ?evt\<rparr>"
  have s0: "sound ?s0" using assms(1) by (simp add: sound_frame[of ?s0 s])
  consider (skip) "isInVRExclusivePointerMode eng \<or> (pi_type p \<noteq> POINTERMOVE \<and> button ?evt \<notin> set (buttons s))"
    | (lock) "\<not> isInVRExclusivePointerMode eng" "\<not> (pi_type p \<noteq> POINTERMOVE \<and> button ?evt \<notin> set (buttons s))"
        "isPointerLock eng"
    | (down) "\<not> isInVRExclusivePointerMode eng" "\<not> (pi_type p \<noteq> POINTERMOVE \<and> button ?evt \<notin> set (buttons s))"
        "\<not> isPointerLock eng" "pi_type p = POINTERDOWN \<and> srcElement ?evt"
    | (tap) "\<not> isInVRExclusivePointerMode eng" "\<not> (pi_type p \<noteq> POINTERMOVE \<and> button ?evt \<notin> set (buttons s))"
        "\<not> isPointerLock eng" "\<not> (pi_type p = POINTERDOWN \<and> srcElement ?evt)" "pi_type p = POINTERDOUBLETAP"
    | (up) "\<not> isInVRExclusivePointerMode eng" "\<not> (pi_type p \<noteq> POINTERMOVE \<and> button ?evt \<notin> set (buttons s))"
        "\<not> isPointerLock eng" "pi_type p = POINTERUP \<and> srcElement ?evt"
    | (move) "\<not> isInVRExclusivePointerMode eng"
        "\<not> isPointerLock eng" "pi_type p = POINTERMOVE"
    | (other) "\<not> isInVRExclusivePointerMode eng" "\<not> (pi_type p \<noteq> POINTERMOVE \<and> button ?evt \<notin> set (buttons s))"
        "\<not> isPointerLock eng" "\<not> (pi_type p = POINTERDOWN \<and> srcElement ?evt)" "pi_type p \<noteq> POINTERDOUBLETAP"
        "\<not> (pi_type p = POINTERUP \<and> srcElement ?evt)" "pi_type p \<noteq> POINTERMOVE"
    by (cases "pi_type p") auto
  then show ?thesis
  proof cases
    case skip
    then have "pointerInput eng p s = Inr s" by (auto simp: pointerInput_def Let_def)
    then show ?thesis using assms by simp
  next
    case lock
    have nb: "pi_type p \<noteq> POINTERMOVE \<Longrightarrow> (button ?evt \<notin> set (buttons s)) = False"
      using lock(2) by blast
    have "bind_err (applyCapture (Touch None (movementX ?evt) (movementY ?evt)) ?s0)
        (\<lambda>s1. Inr (s1\<lparr>u_pointA := None, u_pointB := None\<rparr>)) = Inr s'"
      using assms(2) lock(1,3) by (simp add: pointerInput_def Let_def nb cong: conj_cong)
    then obtain s1 where s1: "applyCapture (Touch None (movementX ?evt) (movementY ?evt)) ?s0 = Inr s1"
      "Inr (s1\<lparr>u_pointA := None, u_pointB := None\<rparr>) = (Inr s' :: error + input)"
      by (rule bind_err_InrE)
    have "sound s1" using s0 s1(1) by (rule capture_sound)
    moreover have "s' = s1\<lparr>u_pointA := None, u_pointB := None\<rparr>" using s1(2) by simp
    moreover have "sound (s1\<lparr>u_pointA := None, u_pointB := None\<rparr>) = sound s1"
      by (rule sound_frame) simp_all
    ultimately show ?thesis by simp
  next
    case down
    let ?s1 = "(if u_pointA ?s0 = None
                     then ?s0\<lparr>u_pointA := Some (nextRef ?s0),
                             store := (store ?s0)(nextRef ?s0 := newPoint ?evt),
                             nextRef := nextRef ?s0 + 1\<rparr>
                     else if u_pointB ?s0 = None
                     then ?s0\<lparr>u_pointB := Some (nextRef ?s0),
                             store := (store ?s0)(nextRef ?s0 := newPoint ?evt),
                             nextRef := nextRef ?s0 + 1\<rparr>
                     else ?s0)"
    have "sound ?s1 = sound ?s0" by (rule sound_frame) simp_all
    then have a: "sound ?s1" using s0 by simp
    have bt: "button ?evt \<in> set (buttons s)" using down by auto
    have "applyCapture (ButtonDown ?evt) ?s1 = Inr s'"
      using assms(2) down(1,3,4) bt by (simp add: pointerInput_def Let_def)
    with a show ?thesis by (rule capture_sound)
  next
    case tap
    have bt: "button ?evt \<in> set (buttons s)" using tap by auto
    have "applyCapture (DoubleTap (pointerType ?evt)) ?s0 = Inr s'"
      using assms(2) tap(1,3,5) bt by (simp add: pointerInput_def Let_def)
    with s0 show ?thesis by (rule capture_sound)
  next
    case up
    obtain a b where lp: "liftPoint eng ?evt ?s0 = ?s0\<lparr>u_pointA := a, u_pointB := b\<rparr>"
      using liftPoint_frame by blast
    let ?s2 = "?s0\<lparr>u_pointA := a, u_pointB := b\<rparr>"
    have s2: "sound ?s2" using assms(1) by (simp add: sound_frame[of ?s2 s])
    have ap: "applyCapture (ButtonUp ?evt) = addEventsButtonUp ?evt" by (rule ext) simp
    have bt: "button ?evt \<in> set (buttons s)" using up by auto
    have pi: "pointerInput eng p s = bind_err
        (if c_previousPinchSquaredDistance s \<noteq> 0 \<or> c_previousMultiTouchPanPosition s \<noteq> None
         then bind_err (applyCapture (MultiTouch a b (c_previousPinchSquaredDistance s) 0
                          (c_previousMultiTouchPanPosition s) None) ?s2)
                (\<lambda>s3. Inr (s3\<lparr>c_previousPinchSquaredDistance := 0,
                               c_previousMultiTouchPanPosition := None\<rparr>))
         else Inr ?s2)
        (applyCapture (ButtonUp ?evt))"
      using up(1,3,4) bt by (simp add: pointerInput_def Let_def lp ap)
    have "bind_err
        (if c_previousPinchSquaredDistance s \<noteq> 0 \<or> c_previousMultiTouchPanPosition s \<noteq> None
         then bind_err (applyCapture (MultiTouch a b (c_previousPinchSquaredDistance s) 0
                          (c_previousMultiTouchPanPosition s) None) ?s2)
                (\<lambda>s3. Inr (s3\<lparr>c_previousPinchSquaredDistance := 0,
                               c_previousMultiTouchPanPosition := None\<rparr>))
         else Inr ?s2)
        (applyCapture (ButtonUp ?evt)) = Inr s'"
      using assms(2) by (simp only: pi)
    then obtain s4 where s4: "(if c_previousPinchSquaredDistance s \<noteq> 0 \<or> c_previousMultiTouchPanPosition s \<noteq> None
         then bind_err (applyCapture (MultiTouch a b (c_previousPinchSquaredDistance s) 0
                          (c_previousMultiTouchPanPosition s) None) ?s2)
                (\<lambda>s3. Inr (s3\<lparr>c_previousPinchSquaredDistance := 0,
                               c_previousMultiTouchPanPosition := None\<rparr>))
         else Inr ?s2) = Inr s4" "applyCapture (ButtonUp ?evt) s4 = Inr s'"
      by (rule bind_err_InrE)
    have "sound s4"
    proof (cases "c_previousPinchSquaredDistance s \<noteq> 0 \<or> c_previousMultiTouchPanPosition s \<noteq> None")
      case True
      then have "bind_err (applyCapture (MultiTouch a b (c_previousPinchSquaredDistance s) 0
                          (c_previousMultiTouchPanPosition s) None) ?s2)
                (\<lambda>s3. Inr (s3\<lparr>c_previousPinchSquaredDistance := 0,
                               c_previousMultiTouchPanPosition := None\<rparr>)) = Inr s4"
        using s4(1) by simp
      then obtain s3 where s3: "applyCapture (MultiTouch a b (c_previousPinchSquaredDistance s) 0
                          (c_previousMultiTouchPanPosition s) None) ?s2 = Inr s3"
        "Inr (s3\<lparr>c_previousPinchSquaredDistance := 0, c_previousMultiTouchPanPosition := None\<rparr>)
           = (Inr s4 :: error + input)"
        by (rule bind_err_InrE)
      have "sound s3" using s2 s3(1) by (rule capture_sound)
      moreover have "s4 = s3\<lparr>c_previousPinchSquaredDistance := 0, c_previousMultiTouchPanPosition := None\<rparr>"
        using s3(2) by simp
      moreover have "sound (s3\<lparr>c_previousPinchSquaredDistance := 0, c_previousMultiTouchPanPosition := None\<rparr>)
          = sound s3"
        by (rule sound_frame) simp_all
      ultimately show ?thesis by simp
    next
      case False
      then have "s4 = ?s2" using s4(1) by simp
      then show ?thesis using s2 by simp
    qed
    then show ?thesis using s4(2) by (rule capture_sound)
  next
    case move
    show ?thesis
    proof (cases "u_pointA s")
      case None
      then have "pointerInput eng p s = Inr ?s0" using move by (simp add: pointerInput_def Let_def)
      then show ?thesis using s0 assms(2) by simp
    next
      case (Some a)
      show ?thesis
      proof (cases "u_pointB s")
        case None
        have "bind_err (applyCapture (Touch (Some a) (clientX ?evt - pt_x (store s a))
                           (clientY ?evt - pt_y (store s a))) ?s0)
                 (\<lambda>s1. Inr (s1\<lparr>store := (store s1)
                                  (a := (store s1 a)\<lparr>pt_x := clientX ?evt, pt_y := clientY ?evt\<rparr>)\<rparr>)) = Inr s'"
          using assms(2) move Some None by (simp add: pointerInput_def Let_def)
        then obtain s1 where s1: "applyCapture (Touch (Some a) (clientX ?evt - pt_x (store s a))
                           (clientY ?evt - pt_y (store s a))) ?s0 = Inr s1"
          "Inr (s1\<lparr>store := (store s1)(a := (store s1 a)\<lparr>pt_x := clientX ?evt, pt_y := clientY ?evt\<rparr>)\<rparr>)
             = (Inr s' :: error + input)"
          by (rule bind_err_InrE)
        have "sound s1" using s0 s1(1) by (rule capture_sound)
        moreover have "s' = s1\<lparr>store := (store s1)(a := (store s1 a)\<lparr>pt_x := clientX ?evt, pt_y := clientY ?evt\<rparr>)\<rparr>"
          using s1(2) by simp
        moreover have "sound (s1\<lparr>store := (store s1)(a := (store s1 a)\<lparr>pt_x := clientX ?evt, pt_y := clientY ?evt\<rparr>)\<rparr>)
            = sound s1"
          by (rule sound_frame) simp_all
        ultimately show ?thesis by simp
      next
        case (Some b)
        define ed where "ed = (if pt_pointerId (store s a) = pointerId ?evt then a else b)"
        define st where "st = (store s)(ed := (store s ed)\<lparr>pt_x := clientX ?evt, pt_y := clientY ?evt\<rparr>)"
        define pinch where "pinch = toInt32 ((pt_x (st a) - pt_x (st b)) * (pt_x (st a) - pt_x (st b))
            + (pt_y (st a) - pt_y (st b)) * (pt_y (st a) - pt_y (st b)))"
        define pan where "pan = \<lparr>pt_x = (pt_x (st a) + pt_x (st b)) / 2,
                           pt_y = (pt_y (st a) + pt_y (st b)) / 2,
                           pt_pointerId = pointerId ?evt,
                           pt_type = EventTypeCode (pi_type p)\<rparr>"
        have "bind_err (applyCapture (MultiTouch (Some a) (Some b) (c_previousPinchSquaredDistance s) pinch
                               (c_previousMultiTouchPanPosition s) (Some pan)) (?s0\<lparr>store := st\<rparr>))
                     (\<lambda>s1. Inr (s1\<lparr>c_previousMultiTouchPanPosition := Some pan,
                                    c_previousPinchSquaredDistance := pinch\<rparr>)) = Inr s'"
          using assms(2) move \<open>u_pointA s = Some a\<close> Some
          by (simp add: pointerInput_def Let_def ed_def st_def pinch_def pan_def)
        then obtain s1 where s1: "applyCapture (MultiTouch (Some a) (Some b) (c_previousPinchSquaredDistance s) pinch
                               (c_previousMultiTouchPanPosition s) (Some pan)) (?s0\<lparr>store := st\<rparr>) = Inr s1"
          "Inr (s1\<lparr>c_previousMultiTouchPanPosition := Some pan, c_previousPinchSquaredDistance := pinch\<rparr>)
             = (Inr s' :: error + input)"
          by (rule bind_err_InrE)
        have "sound (?s0\<lparr>store := st\<rparr>) = sound s" by (rule sound_frame) simp_all
        then have "sound (?s0\<lparr>store := st\<rparr>)" using assms(1) by simp
        then have "sound s1" using s1(1) by (rule capture_sound)
        moreover have "s' = s1\<lparr>c_previousMultiTouchPanPosition := Some pan, c_previousPinchSquaredDistance := pinch\<rparr>"
          using s1(2) by simp
        moreover have "sound (s1\<lparr>c_previousMultiTouchPanPosition := Some pan, c_previousPinchSquaredDistance := pinch\<rparr>)
            = sound s1"
          by (rule sound_frame) simp_all
        ultimately show ?thesis by simp
      qed
    qed
  next
    case other
    have bt: "button ?evt \<in> set (buttons s)" using other by auto
    have nd: "pi_type p = POINTERDOWN \<Longrightarrow> srcElement ?evt = False"
      and nu: "pi_type p = POINTERUP \<Longrightarrow> srcElement ?evt = False"
      using other(4,6) by blast+
    have "pointerInput eng p s = Inr ?s0"
      using other(1,3,5,7) bt by (simp add: pointerInput_def Let_def nd nu cong: conj_cong)
    then show ?thesis using s0 assms(2) by simp
  qed
qed

inductive reachable :: "input \<Rightarrow> bool" where
  reach_attached: "reachable attached"
| reach_mode: "reachable s \<Longrightarrow> reachable (s\<lparr>u_defferCallback := d\<rparr>)"
| reach_input: "reachable s \<Longrightarrow> pointerInput eng p s = Inr s' \<Longrightarrow> reachable s'"
| reach_capture: "reachable s \<Longrightarrow> applyCapture c s = Inr s' \<Longrightarrow> reachable s'"
| reach_drain: "reachable s \<Longrightarrow> checkInputs s = Inr s' \<Longrightarrow> reachable s'"
| reach_focus: "reachable s \<Longrightarrow> reachable (onLostFocus s)"

lemma reachable_sound: "reachable s \<Longrightarrow> sound s"
proof (induction rule: reachable.induct)
  case reach_attached
  show ?case by (rule sound_attached)
next
  case (reach_mode s d)
  have "sound (s\<lparr>u_defferCallback := d\<rparr>) = sound s" by (rule sound_frame) simp_all
  then show ?case using reach_mode by simp
next
  case (reach_input s eng p s')
  then show ?case using pointerInput_sound by blast
next
  case (reach_capture s c s')
  then show ?case using capture_sound by blast
next
  case (reach_drain s s')
  then show ?case using drain_sound by blast
next
  case (reach_focus s)
  then show ?case by (simp add: onLostFocus_sound)
qed

lemma reachable_tagged:
  "reachable s \<Longrightarrow> \<forall>e \<in> set (container (u_allEvents s)). buffer e \<noteq> None"
  using reachable_sound[of s] by (simp add: sound_def tagged_def list_all_iff)

end
